theory Spec2Isabelle
  imports
    Main
    "HOL-Library.Word"
    "HOL-Library.FSet"
    "HOL-Library.Finite_Map"
    "HOL-Library.List_Lexorder"
    "HOL-Library.Multiset"
begin

unbundle bit_operations_syntax

section \<open>The validator cache of core/validators/validators.go\<close>

subsection \<open>Bytes, addresses and run-time panics\<close>

type_synonym byte = "8 word"
type_synonym bytes = "byte list"

text \<open>
  Modelled from the spec: \<open>common.Address\<close> is declared outside the given sources. The
  spec describes it as a fixed-size (20-byte) identifier ordered by byte comparison; here
  it is the sequence of its bytes, and every comparison goes through \<open>bytes_Compare\<close>.
\<close>

type_synonym Address = bytes

text \<open>The ways in which the Go run time aborts the functions below.\<close>

datatype panic = NilPointerDereference | IndexOutOfRange | SliceBoundsOutOfRange

text \<open>
  \<open>bytes.Compare\<close> of the Go standard library: lexicographic comparison of two byte
  slices, bytes read as unsigned numbers, a proper prefix being smaller. The result is
  \<open>-1\<close>, \<open>0\<close> or \<open>1\<close>.
\<close>

fun bytes_Compare :: "bytes \<Rightarrow> bytes \<Rightarrow> int" where
  "bytes_Compare [] [] = 0"
| "bytes_Compare [] (y # ys) = - 1"
| "bytes_Compare (x # xs) [] = 1"
| "bytes_Compare (x # xs) (y # ys) =
     (if x < y then - 1 else if y < x then 1 else bytes_Compare xs ys)"

text \<open>
  \<open>sort.Search(n, f)\<close> of the Go standard library: binary search for the smallest index
  \<open>i\<close> in \<open>[0, n)\<close> with \<open>f i\<close>, and \<open>n\<close> when there is none; the loop keeps
  \<open>f (i - 1) = false\<close> and \<open>f j = true\<close>.
\<close>

function Search_loop :: "(nat \<Rightarrow> bool) \<Rightarrow> nat \<Rightarrow> nat \<Rightarrow> nat" where
  "Search_loop f i j =
     (if i < j then
        (let h = (i + j) div 2
         in if \<not> f h then Search_loop f (h + 1) j else Search_loop f i h)
      else i)"
  by pat_completeness auto
termination
  by (relation "measure (\<lambda>(f, i, j). j - i)") auto

declare Search_loop.simps [simp del]

definition Search :: "nat \<Rightarrow> (nat \<Rightarrow> bool) \<Rightarrow> nat" where
  "Search n f = Search_loop f 0 n"

text \<open>
  \<open>sort.SliceStable(nodes, less)\<close> of the Go standard library. The library sorts blocks
  of up to 20 elements by insertion and merges the blocks; the model is the insertion
  sort on the whole slice, which gives the same list whenever \<open>less\<close> is a strict weak
  order, as the byte order is: every element in turn moves towards the front for as long
  as it is \<open>less\<close> than the element before it. \<open>bubble\<close> takes the already sorted
  prefix in reverse.
\<close>

fun bubble :: "('a \<Rightarrow> 'a \<Rightarrow> bool) \<Rightarrow> 'a list \<Rightarrow> 'a \<Rightarrow> 'a list \<Rightarrow> 'a list" where
  "bubble lt [] x suf = x # suf"
| "bubble lt (p # ps) x suf =
     (if lt x p then bubble lt ps x (p # suf) else rev (p # ps) @ x # suf)"

definition SliceStable :: "('a \<Rightarrow> 'a \<Rightarrow> bool) \<Rightarrow> 'a list \<Rightarrow> 'a list" where
  "SliceStable lt nodes = foldl (\<lambda>front x. bubble lt (rev front) x []) [] nodes"

subsection \<open>The ordered address index of a pool\<close>

text \<open>
  \<open>sortedAddresses\<close> is a struct with the single field \<open>list\<close>; the model is that list.
  \<open>add\<close> follows the three statements of the source: append a zero address, shift the
  tail one place to the right with \<open>copy\<close>, store the address at the found position.
\<close>

type_synonym sortedAddresses = "Address list"

definition zeroAddress :: Address where
  "zeroAddress = replicate 20 0"

definition add :: "sortedAddresses \<Rightarrow> Address \<Rightarrow> sortedAddresses" where
  "add s addr =
     (let i = Search (length s) (\<lambda>i. bytes_Compare (s ! i) addr \<ge> 0);
          s1 = s @ [zeroAddress];
          s2 = take (i + 1) s1 @ take (length s1 - (i + 1)) (drop i s1)
      in s2[i := addr])"

definition index :: "sortedAddresses \<Rightarrow> Address \<Rightarrow> int" where
  "index s addr =
     (let i = Search (length s) (\<lambda>i. bytes_Compare (s ! i) addr \<ge> 0)
      in if i = length s then - 1
         else if bytes_Compare (s ! i) addr = 0 then int i
         else - 1)"

subsection \<open>The cache\<close>

text \<open>
  The struct \<open>ValidatorsCache\<close> without its logger and its mutex. The two \<open>mapset.Set\<close>
  fields are finite sets of addresses, the two Go maps finite maps. The handle
  \<open>identityState\<close> is not a field: the functions that read it take the identity state it
  points to at the moment of the call as an argument.
\<close>

record ValidatorsCache =
  sortedValidators :: "Address list"
  pools :: "(Address, sortedAddresses) fmap"
  delegations :: "(Address, Address) fmap"
  nodesSet :: "Address fset"
  onlineNodesSet :: "Address fset"
  god :: Address
  height :: "64 word"

definition NewValidatorsCache :: "Address \<Rightarrow> ValidatorsCache" where
  "NewValidatorsCache godAddress =
     \<lparr>sortedValidators = [], pools = fmempty, delegations = fmempty,
      nodesSet = {||}, onlineNodesSet = {||}, god = godAddress, height = 0\<rparr>"

definition NetworkSize :: "ValidatorsCache \<Rightarrow> int" where
  "NetworkSize v = int (fcard (nodesSet v))"

definition OnlineSize :: "ValidatorsCache \<Rightarrow> int" where
  "OnlineSize v = int (fcard (onlineNodesSet v))"

definition ValidatorsSize :: "ValidatorsCache \<Rightarrow> int" where
  "ValidatorsSize v = int (length (sortedValidators v))"

definition Height :: "ValidatorsCache \<Rightarrow> 64 word" where
  "Height v = height v"

definition IsPool :: "ValidatorsCache \<Rightarrow> Address \<Rightarrow> bool" where
  "IsPool v pool = (fmlookup (pools v) pool \<noteq> None)"

subsection \<open>Committee sampling\<close>

record StepValidators =
  Original :: "Address fset"
  Addresses :: "Address fset"
  Size :: int

text \<open>
  \<open>set.ToSlice()\<close> lists the members of a \<open>mapset.Set\<close> in an order the library does
  not fix. The order is the parameter \<open>ToSlice\<close>; a theorem about it asks only that the
  list it gives holds the members of the set.
\<close>

definition replaceByDelegatee ::
  "(Address fset \<Rightarrow> Address list) \<Rightarrow> ValidatorsCache \<Rightarrow> Address fset \<Rightarrow> Address fset" where
  "replaceByDelegatee ToSlice v s =
     foldl (\<lambda>mapped addr.
              case fmlookup (delegations v) addr of
                Some d \<Rightarrow> finsert d mapped
              | None \<Rightarrow> finsert addr mapped)
       {||} (ToSlice s)"

text \<open>
  The text hashed for the sampling seed, \<open>fmt.Sprintf("%v-%v-%v", common.Bytes2Hex(seed[:]),
  round, step)\<close>: the seed in lower-case hexadecimal, then the round and the step in
  decimal, joined by hyphens.
\<close>

definition hexDigit :: "nat \<Rightarrow> char" where
  "hexDigit n = ''0123456789abcdef'' ! n"

definition Bytes2Hex :: "bytes \<Rightarrow> string" where
  "Bytes2Hex b = concat (map (\<lambda>x. [hexDigit (unat x div 16), hexDigit (unat x mod 16)]) b)"

function decimal :: "nat \<Rightarrow> string" where
  "decimal n = (if n < 10 then [hexDigit n] else decimal (n div 10) @ [hexDigit (n mod 10)])"
  by pat_completeness auto
termination
  by (relation "measure id") auto

declare decimal.simps [simp del]

definition seedText :: "bytes \<Rightarrow> 64 word \<Rightarrow> 8 word \<Rightarrow> bytes" where
  "seedText seed rnd step =
     map (\<lambda>c. of_nat (of_char c))
       (Bytes2Hex seed @ ''-'' @ decimal (unat rnd) @ ''-'' @ decimal (unat step))"

text \<open>
  \<open>binary.LittleEndian.Uint64\<close>: the first eight bytes, the first one least significant;
  it reads \<open>b[7]\<close> first and so panics on a shorter slice.
\<close>

definition LittleEndian_Uint64 :: "bytes \<Rightarrow> panic + 64 word" where
  "LittleEndian_Uint64 b =
     (if length b < 8 then Inl IndexOutOfRange
      else Inr (ucast (b ! 0) OR push_bit 8 (ucast (b ! 1)) OR push_bit 16 (ucast (b ! 2))
                OR push_bit 24 (ucast (b ! 3)) OR push_bit 32 (ucast (b ! 4))
                OR push_bit 40 (ucast (b ! 5)) OR push_bit 48 (ucast (b ! 6))
                OR push_bit 56 (ucast (b ! 7))))"

text \<open>
  The loop \<open>for i := 0; i < limit; i++ { set.Add(v.sortedValidators[indexes[i]]) }\<close>, over
  the list of the values \<open>i\<close> takes; both index expressions panic out of range.
\<close>

fun addSampled :: "Address list \<Rightarrow> int list \<Rightarrow> nat list \<Rightarrow> Address fset \<Rightarrow> panic + Address fset" where
  "addSampled vals indexes [] s = Inr s"
| "addSampled vals indexes (i # is) s =
     (if i < length indexes then
        (let k = indexes ! i
         in if 0 \<le> k \<and> k < int (length vals)
            then addSampled vals indexes is (finsert (vals ! nat k) s)
            else Inl IndexOutOfRange)
      else Inl IndexOutOfRange)"

text \<open>
  \<open>GetOnlineValidators\<close>. The hash function \<open>crypto.Hash\<close> and the generator
  \<open>rand.New(rand.NewSource(s)).Perm(n)\<close> are the parameters \<open>Hash\<close> and \<open>Perm\<close>. The
  result \<open>Inr None\<close> is the nil pointer the source returns when the validators are fewer
  than \<open>limit\<close>.
\<close>

definition GetOnlineValidators ::
  "(Address fset \<Rightarrow> Address list) \<Rightarrow> (bytes \<Rightarrow> bytes) \<Rightarrow> (64 word \<Rightarrow> nat \<Rightarrow> int list) \<Rightarrow>
   ValidatorsCache \<Rightarrow> bytes \<Rightarrow> 64 word \<Rightarrow> 8 word \<Rightarrow> int \<Rightarrow> panic + StepValidators option" where
  "GetOnlineValidators ToSlice Hash Perm v seed rnd step limit =
     (if OnlineSize v = 0 then
        Inr (Some \<lparr>Original = {|god v|}, Addresses = {|god v|}, Size = 1\<rparr>)
      else if int (length (sortedValidators v)) = limit then
        (let s = foldl (\<lambda>s n. finsert n s) {||} (sortedValidators v);
             newSet = replaceByDelegatee ToSlice v s
         in Inr (Some \<lparr>Original = s, Addresses = newSet, Size = int (fcard newSet)\<rparr>))
      else if int (length (sortedValidators v)) < limit then Inr None
      else
        (let rndSeed = Hash (seedText seed rnd step)
         in case LittleEndian_Uint64 rndSeed of
              Inl e \<Rightarrow> Inl e
            | Inr randSeed \<Rightarrow>
               (let indexes = Perm randSeed (length (sortedValidators v))
                in case addSampled (sortedValidators v) indexes [0 ..< nat limit] {||} of
                     Inl e \<Rightarrow> Inl e
                   | Inr s \<Rightarrow>
                      (let newSet = replaceByDelegatee ToSlice v s
                       in Inr (Some \<lparr>Original = s, Addresses = newSet,
                                     Size = int (fcard newSet)\<rparr>)))))"

subsection \<open>Reloading the cache from the identity state\<close>

text \<open>
  \<open>state.ApprovedIdentity\<close>, with the three fields the cache reads. Its decoder
  \<open>FromBytes\<close> is a parameter of the functions below: \<open>None\<close> is a decoding error.
\<close>

record ApprovedIdentity =
  Approved :: bool
  Online :: bool
  Delegatee :: "Address option"

text \<open>
  Modelled from the spec: \<open>state.IdentityStateDB\<close> is declared outside the given sources.
  By the spec it holds the identity records as raw keys and raw values, in the order in
  which its iteration visits them, and a version. A key is \<open>None\<close> when the slice handed
  to the callback is nil.
\<close>

record IdentityStateDB =
  identities :: "(bytes option \<times> bytes) list"
  Version :: "64 word"

text \<open>
  Modelled from the spec: \<open>IterateIdentities\<close> visits every stored record in order and
  calls the callback on its key and value; the callback returns a boolean meaning
  "stop iterating". A panic of the callback ends the iteration.
\<close>

fun IterateIdentities ::
  "(bytes option \<times> bytes) list \<Rightarrow> (bytes option \<Rightarrow> bytes \<Rightarrow> 's \<Rightarrow> panic + (bool \<times> 's)) \<Rightarrow> 's \<Rightarrow>
   panic + 's" where
  "IterateIdentities [] fn st = Inr st"
| "IterateIdentities ((key, val) # rest) fn st =
     (case fn key val st of
        Inl e \<Rightarrow> Inl e
      | Inr (stop, st') \<Rightarrow> if stop then Inr st' else IterateIdentities rest fn st')"

text \<open>
  Modelled from the spec: \<open>common.Address.SetBytes\<close> is not among the sources. By the spec
  the bytes of a raw key after its first byte are the 20-byte address, so the address set
  from them is those bytes.
\<close>

definition SetBytes :: "bytes \<Rightarrow> Address" where
  "SetBytes b = b"

text \<open>
  What the callback of \<open>loadValidNodes\<close> reads and writes: the cache and the two local
  slices \<open>onlineNodes\<close> and \<open>delegators\<close>.
\<close>

record loadState =
  cache :: ValidatorsCache
  onlineNodes :: "Address list"
  delegators :: "Address list"

text \<open>
  The callback. A nil key returns \<open>true\<close>; \<open>key[1:]\<close> panics on an empty key; a decoding
  error returns \<open>false\<close>; a decoded record updates the online set and sequence, the pool
  of its delegatee and the delegation map, and the approved set, and returns \<open>false\<close>.
\<close>

definition scanIdentity ::
  "(bytes \<Rightarrow> ApprovedIdentity option) \<Rightarrow> bytes option \<Rightarrow> bytes \<Rightarrow> loadState \<Rightarrow>
   panic + (bool \<times> loadState)" where
  "scanIdentity FromBytes key val st =
     (case key of
        None \<Rightarrow> Inr (True, st)
      | Some k \<Rightarrow>
          if length k < 1 then Inl SliceBoundsOutOfRange
          else
            (let addr = SetBytes (drop 1 k)
             in case FromBytes val of
                  None \<Rightarrow> Inr (False, st)
                | Some data \<Rightarrow>
                   (let st1 =
                          (if Online data
                           then st\<lparr>cache := (cache st)\<lparr>onlineNodesSet :=
                                               finsert addr (onlineNodesSet (cache st))\<rparr>,
                                   onlineNodes := onlineNodes st @ [addr]\<rparr>
                           else st);
                        st2 =
                          (case Delegatee data of
                             None \<Rightarrow> st1
                           | Some d \<Rightarrow>
                              (let l = (case fmlookup (pools (cache st1)) d of
                                          Some l \<Rightarrow> l
                                        | None \<Rightarrow> [])
                               in st1\<lparr>cache := (cache st1)\<lparr>pools :=
                                                    fmupd d (add l addr) (pools (cache st1)),
                                                  delegations :=
                                                    fmupd addr d (delegations (cache st1))\<rparr>,
                                       delegators := delegators st1 @ [addr]\<rparr>));
                        st3 =
                          (if Approved data
                           then st2\<lparr>cache := (cache st2)\<lparr>nodesSet :=
                                                finsert addr (nodesSet (cache st2))\<rparr>\<rparr>
                           else st2)
                    in Inr (False, st3))))"

text \<open>
  The loop that builds the validators from the online sequence: an approved online node
  is appended, and so are the delegators of an online node that has a pool.
\<close>

fun appendValidators :: "ValidatorsCache \<Rightarrow> Address list \<Rightarrow> Address list \<Rightarrow> Address list" where
  "appendValidators v [] validators = validators"
| "appendValidators v (n # ns) validators =
     (let validators1 = (if n |\<in>| nodesSet v then validators @ [n] else validators);
          validators2 = (case fmlookup (pools v) n of
                           Some ds \<Rightarrow> validators1 @ ds
                         | None \<Rightarrow> validators1)
      in appendValidators v ns validators2)"

definition sortValidNodes :: "Address list \<Rightarrow> Address list" where
  "sortValidNodes nodes = SliceStable (\<lambda>a b. bytes_Compare a b > 0) nodes"

definition loadValidNodes ::
  "(bytes \<Rightarrow> ApprovedIdentity option) \<Rightarrow> IdentityStateDB \<Rightarrow> ValidatorsCache \<Rightarrow>
   panic + ValidatorsCache" where
  "loadValidNodes FromBytes db v =
     (let v0 = v\<lparr>nodesSet := {||}, onlineNodesSet := {||}, delegations := fmempty,
                pools := fmempty\<rparr>
      in case IterateIdentities (identities db) (scanIdentity FromBytes)
                \<lparr>cache = v0, onlineNodes = [], delegators = []\<rparr> of
           Inl e \<Rightarrow> Inl e
         | Inr st \<Rightarrow>
            (let validators = appendValidators (cache st) (onlineNodes st) []
             in Inr ((cache st)\<lparr>sortedValidators := sortValidNodes validators,
                                height := Version db\<rparr>)))"

definition Load ::
  "(bytes \<Rightarrow> ApprovedIdentity option) \<Rightarrow> IdentityStateDB \<Rightarrow> ValidatorsCache \<Rightarrow>
   panic + ValidatorsCache" where
  "Load FromBytes db v = loadValidNodes FromBytes db v"

text \<open>
  Modelled from the spec: \<open>types.Block\<close> is declared outside the given sources. By the spec
  a block exposes its height and a test of the \<open>IdentityUpdate\<close> flag of its header.
\<close>

record Block =
  hasIdentityUpdate :: bool
  blockHeight :: "64 word"

definition RefreshIfUpdated ::
  "(bytes \<Rightarrow> ApprovedIdentity option) \<Rightarrow> IdentityStateDB \<Rightarrow> ValidatorsCache \<Rightarrow> Address \<Rightarrow> Block \<Rightarrow>
   panic + ValidatorsCache" where
  "RefreshIfUpdated FromBytes db v godAddress block =
     (case (if hasIdentityUpdate block then loadValidNodes FromBytes db v else Inr v) of
        Inl e \<Rightarrow> Inl e
      | Inr v1 \<Rightarrow> Inr (v1\<lparr>god := godAddress, height := blockHeight block\<rparr>))"

subsection \<open>Pool queries\<close>

text \<open>
  \<open>ForkCommitteeSize\<close> ranges over the keys of \<open>v.pools\<close>; Go fixes no order for that,
  so the order is the parameter \<open>rangeKeys\<close>.
\<close>

definition ForkCommitteeSize ::
  "((Address, sortedAddresses) fmap \<Rightarrow> Address list) \<Rightarrow> ValidatorsCache \<Rightarrow> int" where
  "ForkCommitteeSize rangeKeys v =
     foldl (\<lambda>size pool. if \<not> pool |\<in>| nodesSet v then size + 1 else size)
       (NetworkSize v - int (fcard (fmdom (delegations v))))
       (rangeKeys (pools v))"

definition PoolSize :: "ValidatorsCache \<Rightarrow> Address \<Rightarrow> int" where
  "PoolSize v pool =
     (case fmlookup (pools v) pool of
        Some s \<Rightarrow>
          (let size = int (length s);
               size = (if pool |\<in>| nodesSet v then size + 1 else size)
           in size)
      | None \<Rightarrow> 0)"

definition PoolSizeExceptNodes :: "ValidatorsCache \<Rightarrow> Address \<Rightarrow> Address list \<Rightarrow> int" where
  "PoolSizeExceptNodes v pool exceptNodes =
     (case fmlookup (pools v) pool of
        Some s \<Rightarrow>
          (let size = int (length s);
               size = (if pool |\<in>| nodesSet v then size + 1 else size)
           in foldl (\<lambda>size exceptNode. if index s exceptNode > 0 then size - 1 else size)
                size exceptNodes)
      | None \<Rightarrow> 0)"

text \<open>
  \<open>FindSubIdentity\<close> reads \<open>v.pools[pool].list\<close> without a test: for an address without
  a pool the map gives a nil pointer and the field access panics. \<open>uint32(len(set))\<close>
  keeps the low 32 bits of the length.
\<close>

definition FindSubIdentity ::
  "ValidatorsCache \<Rightarrow> Address \<Rightarrow> 32 word \<Rightarrow> panic + (Address \<times> 32 word)" where
  "FindSubIdentity v pool nonce =
     (case fmlookup (pools v) pool of
        None \<Rightarrow> Inl NilPointerDereference
      | Some l \<Rightarrow>
          (let s = (if pool |\<in>| nodesSet v then [pool] @ l else l);
               nonce1 = (if nonce \<ge> word_of_nat (length s) then 0 else nonce)
           in if unat nonce1 < length s then Inr (s ! unat nonce1, nonce1 + 1)
              else Inl IndexOutOfRange))"

subsection \<open>The states a cache can be in\<close>

text \<open>
  A cache is made by \<open>NewValidatorsCache\<close> and changed by \<open>Load\<close> and
  \<open>RefreshIfUpdated\<close> only, on any identity state, decoder, god address and block.
\<close>

inductive reachable :: "ValidatorsCache \<Rightarrow> bool" where
  reachable_New: "reachable (NewValidatorsCache godAddress)"
| reachable_Load: "reachable v \<Longrightarrow> Load FromBytes db v = Inr v' \<Longrightarrow> reachable v'"
| reachable_Refresh:
    "reachable v \<Longrightarrow> RefreshIfUpdated FromBytes db v godAddress block = Inr v' \<Longrightarrow> reachable v'"

subsection \<open>Notions of the specification used in the statements\<close>

text \<open>
  The candidate list of \<open>FindSubIdentity\<close> as the specification words it: the pool
  address, when it is approved, followed by the pool's sorted delegator list.
\<close>

definition candidates :: "ValidatorsCache \<Rightarrow> Address \<Rightarrow> Address list" where
  "candidates v pool =
     (case fmlookup (pools v) pool of
        None \<Rightarrow> []
      | Some l \<Rightarrow> if pool |\<in>| nodesSet v then pool # l else l)"

text \<open>
  A record whose value does not decode: its key is a non-empty slice and \<open>FromBytes\<close>
  gives an error on its value.
\<close>

definition decodeFails :: "(bytes \<Rightarrow> ApprovedIdentity option) \<Rightarrow> bytes option \<times> bytes \<Rightarrow> bool" where
  "decodeFails FromBytes e =
     (case fst e of
        None \<Rightarrow> False
      | Some k \<Rightarrow> 1 \<le> length k \<and> FromBytes (snd e) = None)"

text \<open>
  The addresses of the records a scan visits, in order: those of the keys before the
  first nil key.
\<close>

fun keyAddresses :: "(bytes option \<times> bytes) list \<Rightarrow> Address list" where
  "keyAddresses [] = []"
| "keyAddresses ((None, val) # rest) = []"
| "keyAddresses ((Some k, val) # rest) = SetBytes (drop 1 k) # keyAddresses rest"

subsection \<open>Delegation substitution, as the specification words it\<close>

text \<open>
  Every address that has an entry in the delegation map is replaced by its delegatee, the
  others pass unchanged, and the result is a set.
\<close>

definition delegateeOrSelf :: "ValidatorsCache \<Rightarrow> Address \<Rightarrow> Address" where
  "delegateeOrSelf v a = (case fmlookup (delegations v) a of Some d \<Rightarrow> d | None \<Rightarrow> a)"

definition delegationSubstitution :: "ValidatorsCache \<Rightarrow> Address fset \<Rightarrow> Address fset" where
  "delegationSubstitution v s = delegateeOrSelf v |`| s"

subsection \<open>A concrete identity state\<close>

text \<open>
  Three addresses and stand-ins for the collaborators, for the concrete instances of the
  theorems below. The decoder reads the first byte of a value as two flags (bit 0 approved,
  bit 1 online) and the bytes after it, when there are any, as the delegatee; an empty
  value or a first byte above 3 is a decoding error.
\<close>

definition addrA :: Address where
  "addrA = [0xff, 0xff, 0xff, 0xff, 0xff, 0xff, 0xff, 0xff, 0xff, 0xff,
            0xff, 0xff, 0xff, 0xff, 0xff, 0xff, 0xff, 0xff, 0xff, 0xff]"

definition addrB :: Address where
  "addrB = [0x11, 0x11, 0x11, 0x11, 0x11, 0x11, 0x11, 0x11, 0x11, 0x11,
            0x11, 0x11, 0x11, 0x11, 0x11, 0x11, 0x11, 0x11, 0x11, 0x11]"

definition addrC :: Address where
  "addrC = [0x22, 0x22, 0x22, 0x22, 0x22, 0x22, 0x22, 0x22, 0x22, 0x22,
            0x22, 0x22, 0x22, 0x22, 0x22, 0x22, 0x22, 0x22, 0x22, 0x22]"

definition sampleFromBytes :: "bytes \<Rightarrow> ApprovedIdentity option" where
  "sampleFromBytes b =
     (case b of
        [] \<Rightarrow> None
      | f # d \<Rightarrow>
          if f > 3 then None
          else Some \<lparr>Approved = (f = 1 \<or> f = 3), Online = (f = 2 \<or> f = 3),
                     Delegatee = (if d = [] then None else Some d)\<rparr>)"

definition sampleHash :: "bytes \<Rightarrow> bytes" where
  "sampleHash b = take 32 (b @ replicate 32 0)"

definition samplePerm :: "64 word \<Rightarrow> nat \<Rightarrow> int list" where
  "samplePerm s n = map int (rev [0 ..< n])"

definition sampleSeed :: bytes where
  "sampleSeed = [1, 2, 3, 4, 5, 6, 7, 8, 9, 10, 11, 12, 13, 14, 15, 16,
                 17, 18, 19, 20, 21, 22, 23, 24, 25, 26, 27, 28, 29, 30, 31, 32]"

text \<open>
  The second example of the specification: \<open>A\<close> approved and online, \<open>B\<close> online with
  delegatee \<open>A\<close>, \<open>C\<close> approved and not online; and the cache a reload builds from it.
\<close>

definition sampleDB :: IdentityStateDB where
  "sampleDB = \<lparr>identities = [(Some (1 # addrA), [3]), (Some (1 # addrB), 2 # addrA),
                              (Some (1 # addrC), [1])],
               Version = 5\<rparr>"

definition sampleCache :: ValidatorsCache where
  "sampleCache =
     \<lparr>sortedValidators = [addrA, addrB],
      pools = fmupd addrA [addrB] fmempty,
      delegations = fmupd addrB addrA fmempty,
      nodesSet = {|addrA, addrC|},
      onlineNodesSet = {|addrA, addrB|},
      god = addrC,
      height = 5\<rparr>"

text \<open>
  A second identity state, with a pool of two: \<open>A\<close> approved and online, \<open>B\<close> online
  with delegatee \<open>A\<close>, \<open>C\<close> approved with delegatee \<open>A\<close>.
\<close>

definition sampleDB2 :: IdentityStateDB where
  "sampleDB2 = \<lparr>identities = [(Some (1 # addrA), [3]), (Some (1 # addrC), 1 # addrA),
                               (Some (1 # addrB), 2 # addrA)],
                Version = 8\<rparr>"

definition sampleCache2 :: ValidatorsCache where
  "sampleCache2 =
     \<lparr>sortedValidators = [addrA, addrC, addrB],
      pools = fmupd addrA [addrB, addrC] fmempty,
      delegations = fmupd addrB addrA (fmupd addrC addrA fmempty),
      nodesSet = {|addrA, addrC|},
      onlineNodesSet = {|addrA, addrB|},
      god = addrC,
      height = 8\<rparr>"

text \<open>
  The keys a scan visits: those before the first nil key. \<open>keyAddresses\<close> are the
  addresses the callback sets from them.
\<close>

fun scannedKeys :: "(bytes option \<times> bytes) list \<Rightarrow> bytes list" where
  "scannedKeys [] = []"
| "scannedKeys ((None, val) # rest) = []"
| "scannedKeys ((Some k, val) # rest) = k # scannedKeys rest"

text \<open>
  What one online node contributes to the validators: itself when it is approved, then
  the delegators of its pool when it has one.
\<close>

definition contribution :: "ValidatorsCache \<Rightarrow> Address \<Rightarrow> Address list" where
  "contribution v n =
     (if n |\<in>| nodesSet v then [n] else []) @
     (case fmlookup (pools v) n of Some ds \<Rightarrow> ds | None \<Rightarrow> [])"

text \<open>
  The condition under which the validators have no duplicates: no address that is online
  and approved has a delegatee that is online.
\<close>

definition noOnlineApprovedDelegator :: "ValidatorsCache \<Rightarrow> bool" where
  "noOnlineApprovedDelegator v =
     (\<forall>a d. a |\<in>| onlineNodesSet v \<and> a |\<in>| nodesSet v \<and> fmlookup (delegations v) a = Some d
        \<longrightarrow> d |\<notin>| onlineNodesSet v)"

subsection \<open>The invariant of the pools\<close>

text \<open>Every pool list is non-empty and ascending in the byte order of the addresses.\<close>

definition poolsSorted :: "ValidatorsCache \<Rightarrow> bool" where
  "poolsSorted v = (\<forall>p l. fmlookup (pools v) p = Some l \<longrightarrow> l \<noteq> [] \<and> sorted l)"

text \<open>
  The invariant of a scan over records with pairwise different addresses: the online
  sequence has no duplicates and lists the online set, and every pool list has no
  duplicates and holds only addresses whose delegatee is the pool address.
\<close>

definition scanInv :: "loadState \<Rightarrow> bool" where
  "scanInv st =
     (distinct (onlineNodes st) \<and>
      fset_of_list (onlineNodes st) = onlineNodesSet (cache st) \<and>
      (\<forall>d l. fmlookup (pools (cache st)) d = Some l \<longrightarrow>
         distinct l \<and> (\<forall>a \<in> set l. fmlookup (delegations (cache st)) a = Some d)))"

section \<open>Properties\<close>

subsection \<open>Auxiliary facts about finite sets and the concrete instance\<close>

lemma foldl_finsert_image:
  "foldl (\<lambda>m a. finsert (f a) m) acc xs = acc |\<union>| (f |`| fset_of_list xs)"
  by (induction xs arbitrary: acc) auto

lemma foldl_finsert_set: "foldl (\<lambda>s n. finsert n s) acc xs = acc |\<union>| fset_of_list xs"
  by (induction xs arbitrary: acc) auto

lemma foldl_count:
  "foldl (\<lambda>size p. if P p then size + 1 else size) (a::int) ks = a + int (length (filter P ks))"
  by (induction ks arbitrary: a) auto

lemma ffilter_of_list: "ffilter P (fset_of_list ks) = fset_of_list (filter P ks)"
  by (rule fset_eqI) (simp add: fset_of_list_elem)

lemma ffilter_finsert_if:
  "ffilter P (finsert a A) = (if P a then finsert a (ffilter P A) else ffilter P A)"
  by auto

lemma ffilter_fempty: "ffilter P {||} = {||}"
  by auto

lemma fcard_of_distinct_list: "distinct ks \<Longrightarrow> fcard (fset_of_list ks) = length ks"
  by (simp add: fcard.rep_eq fset_of_list.rep_eq distinct_card)

lemma distinct_sorted_list_of_fset: "distinct (sorted_list_of_fset S)"
  by (simp add: sorted_list_of_fset.rep_eq)

lemma addr_distinct:
  "addrA \<noteq> addrB" "addrA \<noteq> addrC" "addrB \<noteq> addrC"
  "addrB \<noteq> addrA" "addrC \<noteq> addrA" "addrC \<noteq> addrB"
  "addrA \<noteq> []" "addrB \<noteq> []" "addrC \<noteq> []"
  by (simp_all add: addrA_def addrB_def addrC_def)

lemma addr_compare: "bytes_Compare addrB addrA = - 1" "bytes_Compare addrA addrB = 1"
  by (simp_all add: addrA_def addrB_def)

lemma add_to_empty: "add [] a = [a]"
  by (simp add: add_def Search_def Search_loop.simps)

text \<open>The reload of the concrete identity state gives the concrete cache.\<close>

lemma load_sample:
  "loadValidNodes sampleFromBytes sampleDB (NewValidatorsCache addrC) = Inr sampleCache"
  by (simp add: loadValidNodes_def sampleDB_def NewValidatorsCache_def scanIdentity_def
      sampleFromBytes_def SetBytes_def add_to_empty sampleCache_def addr_distinct
      sortValidNodes_def SliceStable_def Let_def addr_compare finsert_commute)

subsection \<open>The byte order, binary search and the ordered address index\<close>

text \<open>\<open>bytes.Compare\<close> decides the lexicographic order of the byte lists.\<close>

lemma bytes_Compare_order:
  "bytes_Compare a b = (if a < b then - 1 else if a = b then 0 else 1)"
  by (induction a b rule: bytes_Compare.induct) auto

lemma bytes_Compare_ge: "(bytes_Compare a b \<ge> 0) = (b \<le> a)"
  by (auto simp: bytes_Compare_order)

lemma bytes_Compare_gt: "(bytes_Compare a b > 0) = (b < a)"
  by (auto simp: bytes_Compare_order)

lemma bytes_Compare_eq: "(bytes_Compare a b = 0) = (a = b)"
  by (auto simp: bytes_Compare_order)

lemma Search_loop_stop: "\<not> i < j \<Longrightarrow> Search_loop f i j = i"
  by (subst Search_loop.simps) simp

lemma Search_loop_right:
  "i < j \<Longrightarrow> \<not> f ((i + j) div 2) \<Longrightarrow> Search_loop f i j = Search_loop f ((i + j) div 2 + 1) j"
  by (subst Search_loop.simps) (simp add: Let_def)

lemma Search_loop_left:
  "i < j \<Longrightarrow> f ((i + j) div 2) \<Longrightarrow> Search_loop f i j = Search_loop f i ((i + j) div 2)"
  by (subst Search_loop.simps) (simp add: Let_def)

lemma Search_loop_range: "i \<le> j \<Longrightarrow> i \<le> Search_loop f i j \<and> Search_loop f i j \<le> j"
proof (induction f i j rule: Search_loop.induct)
  case (1 f i j)
  show ?case
  proof (cases "i < j")
    case False
    with "1.prems" show ?thesis by (simp add: Search_loop_stop)
  next
    case True
    let ?h = "(i + j) div 2"
    show ?thesis
    proof (cases "f ?h")
      case True
      have eq: "Search_loop f i j = Search_loop f i ?h"
        using \<open>i < j\<close> True by (rule Search_loop_left)
      have "i \<le> ?h" using \<open>i < j\<close> by simp
      then have "i \<le> Search_loop f i ?h \<and> Search_loop f i ?h \<le> ?h"
        using "1.IH"(2) [OF \<open>i < j\<close> refl] True by simp
      moreover have "?h \<le> j" using \<open>i < j\<close> by simp
      ultimately show ?thesis unfolding eq by linarith
    next
      case False
      have eq: "Search_loop f i j = Search_loop f (?h + 1) j"
        using \<open>i < j\<close> False by (rule Search_loop_right)
      have "?h + 1 \<le> j" using \<open>i < j\<close> by simp
      then have "?h + 1 \<le> Search_loop f (?h + 1) j \<and> Search_loop f (?h + 1) j \<le> j"
        using "1.IH"(1) [OF \<open>i < j\<close> refl False] by simp
      then show ?thesis unfolding eq by linarith
    qed
  qed
qed

lemma Search_le: "Search n f \<le> n"
  using Search_loop_range [of 0 n f] by (simp add: Search_def)

lemma Search_loop_least:
  assumes "i \<le> j" and "\<forall>k<i. \<not> f k" and "\<forall>k\<ge>j. f k"
    and "\<forall>a b. a \<le> b \<and> f a \<longrightarrow> f b"
  shows "(\<forall>k < Search_loop f i j. \<not> f k) \<and> (\<forall>k \<ge> Search_loop f i j. f k)"
  using assms
proof (induction f i j rule: Search_loop.induct)
  case (1 f i j)
  show ?case
  proof (cases "i < j")
    case False
    with "1.prems" show ?thesis by (simp add: Search_loop_stop)
  next
    case True
    let ?h = "(i + j) div 2"
    show ?thesis
    proof (cases "f ?h")
      case True
      have eq: "Search_loop f i j = Search_loop f i ?h"
        using \<open>i < j\<close> True by (rule Search_loop_left)
      have a: "\<forall>k\<ge>?h. f k" using True "1.prems"(4) by blast
      have b: "i \<le> ?h" using \<open>i < j\<close> by simp
      have c: "\<not> \<not> f ?h" using True by simp
      show ?thesis
        unfolding eq
        by (rule "1.IH"(2) [OF \<open>i < j\<close> refl c b "1.prems"(2) a "1.prems"(4)])
    next
      case False
      have eq: "Search_loop f i j = Search_loop f (?h + 1) j"
        using \<open>i < j\<close> False by (rule Search_loop_right)
      have a: "\<forall>k<?h + 1. \<not> f k"
        using False "1.prems"(4) by (metis Suc_eq_plus1 less_Suc_eq_le)
      have b: "?h + 1 \<le> j" using \<open>i < j\<close> by simp
      show ?thesis
        unfolding eq
        by (rule "1.IH"(1) [OF \<open>i < j\<close> refl False b a "1.prems"(3) "1.prems"(4)])
    qed
  qed
qed

lemma shift_insert:
  assumes "i \<le> length s"
  shows "(take (i + 1) (s @ [z]) @ take (length (s @ [z]) - (i + 1)) (drop i (s @ [z])))[i := a]
           = take i s @ a # drop i s"
proof (cases "i = length s")
  case True
  then show ?thesis by simp
next
  case False
  with assms have lt: "i < length s" by simp
  then have "take (i + 1) (s @ [z]) = take i s @ [s ! i]"
    by (simp add: take_Suc_conv_app_nth)
  moreover have "take (length (s @ [z]) - (i + 1)) (drop i (s @ [z])) = drop i s"
    using lt by simp
  ultimately show ?thesis
    using lt by (simp add: list_update_append)
qed

lemma add_insert:
  "add s addr =
     (let i = Search (length s) (\<lambda>i. bytes_Compare (s ! i) addr \<ge> 0)
      in take i s @ addr # drop i s)"
  using shift_insert [OF Search_le, of s "\<lambda>i. bytes_Compare (s ! i) addr \<ge> 0" zeroAddress addr]
  by (simp add: add_def Let_def)

lemma set_add: "set (add s addr) = insert addr (set s)"
proof -
  have "set (take i s @ addr # drop i s) = insert addr (set s)" for i
    by (metis append_take_drop_id list.simps(15) set_append Un_insert_right)
  then show ?thesis by (simp add: add_insert Let_def)
qed

lemma add_not_Nil: "add s addr \<noteq> []"
  by (simp add: add_insert Let_def)

lemma length_add: "length (add s addr) = Suc (length s)"
  using Search_le [of "length s"] by (simp add: add_insert Let_def)

lemma distinct_add: "distinct s \<Longrightarrow> addr \<notin> set s \<Longrightarrow> distinct (add s addr)"
proof -
  assume d: "distinct s" and n: "addr \<notin> set s"
  have "distinct (take i s @ addr # drop i s)" for i
  proof -
    have "distinct (take i s @ drop i s)" using d by simp
    then have "distinct (take i s)" "distinct (drop i s)" "set (take i s) \<inter> set (drop i s) = {}"
      by (simp_all only: distinct_append)
    moreover have "addr \<notin> set (take i s)" "addr \<notin> set (drop i s)"
      using n by (auto dest: in_set_takeD in_set_dropD)
    ultimately show ?thesis by auto
  qed
  then show ?thesis by (simp add: add_insert Let_def)
qed

lemma Search_sorted:
  fixes s :: "Address list" and addr :: Address
  assumes "sorted s"
  defines "r \<equiv> Search (length s) (\<lambda>i. bytes_Compare (s ! i) addr \<ge> 0)"
  shows "r \<le> length s" and "\<forall>k<r. s ! k < addr" and "\<forall>k. r \<le> k \<and> k < length s \<longrightarrow> addr \<le> s ! k"
proof -
  let ?f = "\<lambda>i. i \<ge> length s \<or> addr \<le> s ! i"
  have same: "Search_loop (\<lambda>i. bytes_Compare (s ! i) addr \<ge> 0) i j = Search_loop ?f i j"
    if "j \<le> length s" for i j
    using that
  proof (induction "\<lambda>i. bytes_Compare (s ! i) addr \<ge> 0" i j rule: Search_loop.induct)
    case (1 i j)
    show ?case
    proof (cases "i < j")
      case False
      then show ?thesis by (simp add: Search_loop_stop)
    next
      case True
      let ?h = "(i + j) div 2"
      have hl: "?h < length s" using True "1.prems" by simp
      show ?thesis
      proof (cases "addr \<le> s ! ?h")
        case True
        have "Search_loop (\<lambda>i. bytes_Compare (s ! i) addr \<ge> 0) i j =
              Search_loop (\<lambda>i. bytes_Compare (s ! i) addr \<ge> 0) i ?h"
          using \<open>i < j\<close> True by (intro Search_loop_left) (simp_all add: bytes_Compare_ge)
        moreover have "Search_loop ?f i j = Search_loop ?f i ?h"
          using \<open>i < j\<close> True by (intro Search_loop_left) simp_all
        moreover have "Search_loop (\<lambda>i. bytes_Compare (s ! i) addr \<ge> 0) i ?h = Search_loop ?f i ?h"
          using "1.hyps"(2) [OF \<open>i < j\<close> refl] True hl by (simp add: bytes_Compare_ge)
        ultimately show ?thesis by simp
      next
        case False
        have "Search_loop (\<lambda>i. bytes_Compare (s ! i) addr \<ge> 0) i j =
              Search_loop (\<lambda>i. bytes_Compare (s ! i) addr \<ge> 0) (?h + 1) j"
          using \<open>i < j\<close> False by (intro Search_loop_right) (simp_all add: bytes_Compare_ge)
        moreover have "Search_loop ?f i j = Search_loop ?f (?h + 1) j"
          using \<open>i < j\<close> False hl by (intro Search_loop_right) simp_all
        moreover have "Search_loop (\<lambda>i. bytes_Compare (s ! i) addr \<ge> 0) (?h + 1) j
                       = Search_loop ?f (?h + 1) j"
          using "1.hyps"(1) [OF \<open>i < j\<close> refl] False "1.prems" by (simp add: bytes_Compare_ge)
        ultimately show ?thesis by simp
      qed
    qed
  qed
  have r: "r = Search_loop ?f 0 (length s)"
    by (simp add: r_def Search_def same)
  have mono: "\<forall>a b. a \<le> b \<and> ?f a \<longrightarrow> ?f b"
    using assms(1) by (auto simp: sorted_iff_nth_mono intro: order_trans)
  have "(\<forall>k < r. \<not> ?f k) \<and> (\<forall>k \<ge> r. ?f k)"
    unfolding r by (rule Search_loop_least) (use mono in auto)
  then show "\<forall>k<r. s ! k < addr" and "\<forall>k. r \<le> k \<and> k < length s \<longrightarrow> addr \<le> s ! k"
    by (auto simp: not_le)
  show "r \<le> length s" unfolding r_def by (rule Search_le)
qed


lemma sorted_add:
  fixes s :: "Address list"
  assumes "sorted s"
  shows "sorted (add s addr)"
proof -
  let ?r = "Search (length s) (\<lambda>i. bytes_Compare (s ! i) addr \<ge> 0)"
  note S = Search_sorted [OF assms, of addr]
  have before: "x \<le> addr" if "x \<in> set (take ?r s)" for x
  proof -
    from that obtain i where "i < length (take ?r s)" "take ?r s ! i = x"
      by (auto simp: in_set_conv_nth)
    then have "i < ?r" "s ! i = x" by simp_all
    with S(2) show ?thesis by auto
  qed
  have after: "addr \<le> y" if "y \<in> set (drop ?r s)" for y
  proof -
    from that obtain i where "i < length (drop ?r s)" "drop ?r s ! i = y"
      by (auto simp: in_set_conv_nth)
    then have "?r + i < length s" "s ! (?r + i) = y" using S(1) by simp_all
    with S(3) show ?thesis by auto
  qed
  have "sorted (take ?r s)" "sorted (drop ?r s)"
    using assms by simp_all
  then have "sorted (take ?r s @ addr # drop ?r s)"
    using before after by (auto simp: sorted_append intro: order_trans)
  then show ?thesis by (simp add: add_insert Let_def)
qed

lemma index_absent: "addr \<notin> set s \<Longrightarrow> index s addr = - 1"
proof -
  assume n: "addr \<notin> set s"
  let ?r = "Search (length s) (\<lambda>i. bytes_Compare (s ! i) addr \<ge> 0)"
  show ?thesis
  proof (cases "?r = length s")
    case True
    then show ?thesis by (simp add: index_def Let_def)
  next
    case False
    then have "?r < length s" using Search_le [of "length s"] by (simp add: le_neq_implies_less)
    then have "s ! ?r \<noteq> addr" using n by (metis nth_mem)
    with False show ?thesis by (simp add: index_def Let_def bytes_Compare_eq)
  qed
qed

lemma index_first:
  fixes s :: "Address list"
  assumes "sorted s" and "k < length s" and "s ! k = addr" and "\<forall>j<k. s ! j \<noteq> addr"
  shows "index s addr = int k"
proof -
  let ?r = "Search (length s) (\<lambda>i. bytes_Compare (s ! i) addr \<ge> 0)"
  note S = Search_sorted [OF assms(1), of addr]
  have "\<not> k < ?r" using S(2) assms(3) by auto
  moreover have "\<not> ?r < k"
  proof
    assume lt: "?r < k"
    then have "addr \<le> s ! ?r" using S(3) assms(2) by auto
    moreover have "s ! ?r \<le> s ! k"
      using assms(1,2) lt by (simp add: sorted_iff_nth_mono)
    ultimately have "s ! ?r = addr" using assms(3) by simp
    with lt assms(4) show False by blast
  qed
  ultimately have "?r = k" by simp
  then show ?thesis using assms(2,3) by (simp add: index_def Let_def bytes_Compare_eq)
qed

subsection \<open>Committee sampling\<close>

text \<open>
  The loop of \<open>replaceByDelegatee\<close> computes the delegation substitution of the
  specification, in whatever order \<open>ToSlice\<close> lists the set.
\<close>

lemma replaceByDelegatee_step:
  "(case fmlookup (delegations v) a of Some d \<Rightarrow> finsert d m | None \<Rightarrow> finsert a m)
     = finsert (delegateeOrSelf v a) m"
  by (simp add: delegateeOrSelf_def split: option.split)

lemma replaceByDelegatee_image:
  assumes "fset_of_list (ToSlice s) = s"
  shows "replaceByDelegatee ToSlice v s = delegationSubstitution v s"
  using assms
  by (simp add: replaceByDelegatee_def replaceByDelegatee_step foldl_finsert_image
      delegationSubstitution_def)

lemma delegationSubstitution_cong:
  "delegations v1 = delegations v2 \<Longrightarrow> delegationSubstitution v1 s = delegationSubstitution v2 s"
  by (simp add: delegationSubstitution_def delegateeOrSelf_def fun_eq_iff cong: fimage_cong)

text \<open>
  C6: when the online set is empty, \<open>GetOnlineValidators\<close> returns the committee whose
  original and effective sets are both the singleton of the god address and whose size is
  1, whatever the seed, the round, the step and the limit are.
\<close>

theorem GetOnlineValidators_no_online:
  assumes "OnlineSize v = 0"
  shows "GetOnlineValidators ToSlice Hash Perm v seed rnd step limit =
           Inr (Some \<lparr>Original = {|god v|}, Addresses = {|god v|}, Size = 1\<rparr>)"
  using assms by (simp add: GetOnlineValidators_def)

theorem GetOnlineValidators_no_online_witness:
  "OnlineSize (NewValidatorsCache addrC) = 0 \<and>
   GetOnlineValidators sorted_list_of_fset sampleHash samplePerm (NewValidatorsCache addrC)
     sampleSeed 7 1 3 =
     Inr (Some \<lparr>Original = {|addrC|}, Addresses = {|addrC|}, Size = 1\<rparr>)"
  using GetOnlineValidators_no_online
    [of "NewValidatorsCache addrC" sorted_list_of_fset sampleHash samplePerm sampleSeed 7 1 3]
  by (simp add: OnlineSize_def NewValidatorsCache_def)

text \<open>
  C4: when at least one identity is online and the validator list has exactly \<open>limit\<close>
  members, \<open>GetOnlineValidators\<close> returns the set of all validators as the original set,
  its delegation substitution as the effective set and the cardinality of the effective
  set as the size. The result mentions neither the hash nor the generator: it is the same
  for every \<open>Hash\<close> and \<open>Perm\<close>, and for every order in which \<open>ToSlice\<close> lists a set.
\<close>

theorem GetOnlineValidators_full_set:
  assumes "OnlineSize v \<noteq> 0"
    and "ValidatorsSize v = limit"
    and "\<forall>s. fset_of_list (ToSlice s) = s"
  shows "GetOnlineValidators ToSlice Hash Perm v seed rnd step limit =
           Inr (Some \<lparr>Original = fset_of_list (sortedValidators v),
                      Addresses = delegationSubstitution v (fset_of_list (sortedValidators v)),
                      Size = int (fcard (delegationSubstitution v
                                           (fset_of_list (sortedValidators v))))\<rparr>)"
  using assms
  by (simp add: GetOnlineValidators_def ValidatorsSize_def foldl_finsert_set
      replaceByDelegatee_image Let_def)

theorem GetOnlineValidators_full_set_witness:
  "OnlineSize sampleCache \<noteq> 0 \<and> ValidatorsSize sampleCache = 2 \<and>
   (\<forall>s :: Address fset. fset_of_list (sorted_list_of_fset s) = s) \<and>
   GetOnlineValidators sorted_list_of_fset sampleHash samplePerm sampleCache sampleSeed 7 1 2 =
     Inr (Some \<lparr>Original = {|addrA, addrB|}, Addresses = {|addrA|}, Size = 1\<rparr>)"
  using GetOnlineValidators_full_set
    [of sampleCache 2 sorted_list_of_fset sampleHash samplePerm sampleSeed 7 1]
  by (simp add: OnlineSize_def ValidatorsSize_def sampleCache_def delegationSubstitution_def
      delegateeOrSelf_def addr_distinct fcard_finsert_if)

text \<open>
  C5, as the code has it: when at least one identity is online and the validator list is
  shorter than \<open>limit\<close>, \<open>GetOnlineValidators\<close> returns nil, for every seed, round and
  step. The test for an empty online set comes first in the source, so without an online
  identity the god committee is returned, also when the validator list is shorter than
  \<open>limit\<close>.
\<close>

theorem GetOnlineValidators_insufficient:
  assumes "OnlineSize v \<noteq> 0"
    and "ValidatorsSize v < limit"
  shows "GetOnlineValidators ToSlice Hash Perm v seed rnd step limit = Inr None"
  using assms by (simp add: GetOnlineValidators_def ValidatorsSize_def)

theorem GetOnlineValidators_insufficient_witness:
  "OnlineSize sampleCache \<noteq> 0 \<and> ValidatorsSize sampleCache < 3 \<and>
   GetOnlineValidators sorted_list_of_fset sampleHash samplePerm sampleCache sampleSeed 7 1 3 =
     Inr None"
  using GetOnlineValidators_insufficient
    [of sampleCache 3 sorted_list_of_fset sampleHash samplePerm sampleSeed 7 1]
  by (simp add: OnlineSize_def ValidatorsSize_def sampleCache_def addr_distinct fcard_finsert_if)

text \<open>
  C5 as stated fails on a cache without online identities: a new cache has no validators,
  fewer than the limit 1, and the result is the god committee, not nil.
\<close>

theorem GetOnlineValidators_insufficient_counterexample:
  "ValidatorsSize (NewValidatorsCache addrC) < 1 \<and>
   GetOnlineValidators sorted_list_of_fset sampleHash samplePerm (NewValidatorsCache addrC)
     sampleSeed 7 1 1 = Inr (Some \<lparr>Original = {|addrC|}, Addresses = {|addrC|}, Size = 1\<rparr>) \<and>
   GetOnlineValidators sorted_list_of_fset sampleHash samplePerm (NewValidatorsCache addrC)
     sampleSeed 7 1 1 \<noteq> Inr None"
  by (simp add: GetOnlineValidators_def OnlineSize_def ValidatorsSize_def NewValidatorsCache_def)

text \<open>
  A reload reads of the cache it starts from the god address only: the scan does not read
  the validator list or the height, and the reload overwrites both.
\<close>

lemma scanIdentity_base:
  fixes sv :: "Address list" and h :: "64 word"
  defines "g \<equiv> \<lambda>st. st\<lparr>cache := (cache st)\<lparr>sortedValidators := sv, height := h\<rparr>\<rparr>"
  shows "scanIdentity FromBytes key val (g st) =
           map_sum id (map_prod id g) (scanIdentity FromBytes key val st)"
proof (cases key)
  case None
  then show ?thesis by (simp add: scanIdentity_def)
next
  case (Some k)
  show ?thesis
  proof (cases "FromBytes val")
    case None
    then show ?thesis by (simp add: scanIdentity_def Some)
  next
    case (Some data)
    show ?thesis
      by (cases "Online data"; cases "Approved data"; cases "Delegatee data")
        (simp_all add: scanIdentity_def \<open>key = Some k\<close> Some Let_def g_def)
  qed
qed

lemma IterateIdentities_base:
  fixes sv :: "Address list" and h :: "64 word"
  defines "g \<equiv> \<lambda>st. st\<lparr>cache := (cache st)\<lparr>sortedValidators := sv, height := h\<rparr>\<rparr>"
  shows "IterateIdentities es (scanIdentity FromBytes) (g st) =
           map_sum id g (IterateIdentities es (scanIdentity FromBytes) st)"
proof (induction es arbitrary: st)
  case Nil
  show ?case by simp
next
  case (Cons e es)
  obtain key val where e: "e = (key, val)" by (cases e)
  show ?case
    using Cons.IH
    by (cases "scanIdentity FromBytes key val st")
      (auto simp: e scanIdentity_base g_def)
qed

lemma appendValidators_base:
  "appendValidators (c\<lparr>sortedValidators := sv, height := h\<rparr>) ns acc = appendValidators c ns acc"
  by (induction ns arbitrary: acc) simp_all

lemma loadValidNodes_fresh:
  "loadValidNodes FromBytes db v = loadValidNodes FromBytes db (NewValidatorsCache (god v))"
proof -
  let ?n = "NewValidatorsCache (god v)"
  let ?s0 = "\<lparr>cache = ?n\<lparr>nodesSet := {||}, onlineNodesSet := {||}, delegations := fmempty,
                           pools := fmempty\<rparr>, onlineNodes = [], delegators = []\<rparr>"
  let ?g = "\<lambda>st. st\<lparr>cache := (cache st)\<lparr>sortedValidators := sortedValidators v, height := height v\<rparr>\<rparr>"
  have "\<lparr>cache = v\<lparr>nodesSet := {||}, onlineNodesSet := {||}, delegations := fmempty,
                    pools := fmempty\<rparr>, onlineNodes = [], delegators = []\<rparr> = ?g ?s0"
    by (simp add: NewValidatorsCache_def)
  then have "IterateIdentities (identities db) (scanIdentity FromBytes)
               \<lparr>cache = v\<lparr>nodesSet := {||}, onlineNodesSet := {||}, delegations := fmempty,
                           pools := fmempty\<rparr>, onlineNodes = [], delegators = []\<rparr>
             = map_sum id ?g (IterateIdentities (identities db) (scanIdentity FromBytes) ?s0)"
    by (simp only: IterateIdentities_base)
  then show ?thesis
    by (cases "IterateIdentities (identities db) (scanIdentity FromBytes) ?s0")
      (simp_all add: loadValidNodes_def Let_def appendValidators_base)
qed


text \<open>
  \<open>GetOnlineValidators\<close> reads the validator list, the online set, the delegation map
  and the god address, and no more.
\<close>

lemma GetOnlineValidators_cong:
  assumes "sortedValidators v1 = sortedValidators v2"
    and "onlineNodesSet v1 = onlineNodesSet v2"
    and "delegations v1 = delegations v2"
    and "god v1 = god v2"
    and "\<forall>s. fset_of_list (ToSlice1 s) = s"
    and "\<forall>s. fset_of_list (ToSlice2 s) = s"
  shows "GetOnlineValidators ToSlice1 Hash Perm v1 seed rnd step limit =
         GetOnlineValidators ToSlice2 Hash Perm v2 seed rnd step limit"
  using assms
  by (simp add: GetOnlineValidators_def OnlineSize_def replaceByDelegatee_image
      delegationSubstitution_cong [of v1 v2] Let_def cong: sum.case_cong)

lemma reload_sample:
  "loadValidNodes sampleFromBytes sampleDB sampleCache2 = Inr sampleCache"
proof -
  have "god sampleCache2 = addrC" by (simp add: sampleCache2_def)
  then show ?thesis
    using loadValidNodes_fresh [of sampleFromBytes sampleDB sampleCache2] load_sample by simp
qed

text \<open>
  C3: two caches that agree on the validator list, the online set, the approved set, the
  delegation map and the god address give the same result (the same original set, the same
  effective set and the same size, or nil in both, or the same panic in both) for the same
  seed, round, step and limit; so do two caches with the same god address that were
  reloaded from the same identity state, whatever they held before. The two calls may list
  their sets in different orders; the hash and the generator are the same functions in
  both.
\<close>

theorem GetOnlineValidators_deterministic:
  assumes "\<forall>s. fset_of_list (ToSlice1 s) = s"
    and "\<forall>s. fset_of_list (ToSlice2 s) = s"
  shows "(sortedValidators v1 = sortedValidators v2 \<and> onlineNodesSet v1 = onlineNodesSet v2 \<and>
          nodesSet v1 = nodesSet v2 \<and> delegations v1 = delegations v2 \<and> god v1 = god v2 \<longrightarrow>
          GetOnlineValidators ToSlice1 Hash Perm v1 seed rnd step limit =
          GetOnlineValidators ToSlice2 Hash Perm v2 seed rnd step limit) \<and>
         (god u1 = god u2 \<and> loadValidNodes FromBytes db u1 = Inr w1 \<and>
          loadValidNodes FromBytes db u2 = Inr w2 \<longrightarrow>
          GetOnlineValidators ToSlice1 Hash Perm w1 seed rnd step limit =
          GetOnlineValidators ToSlice2 Hash Perm w2 seed rnd step limit)"
proof (intro conjI impI)
  assume "sortedValidators v1 = sortedValidators v2 \<and> onlineNodesSet v1 = onlineNodesSet v2 \<and>
          nodesSet v1 = nodesSet v2 \<and> delegations v1 = delegations v2 \<and> god v1 = god v2"
  then show "GetOnlineValidators ToSlice1 Hash Perm v1 seed rnd step limit =
             GetOnlineValidators ToSlice2 Hash Perm v2 seed rnd step limit"
    using assms by (intro GetOnlineValidators_cong) simp_all
next
  assume a: "god u1 = god u2 \<and> loadValidNodes FromBytes db u1 = Inr w1 \<and>
             loadValidNodes FromBytes db u2 = Inr w2"
  have "loadValidNodes FromBytes db u1 = loadValidNodes FromBytes db u2"
    using a loadValidNodes_fresh [of FromBytes db u1] loadValidNodes_fresh [of FromBytes db u2]
    by simp
  then have "w1 = w2" using a by simp
  then show "GetOnlineValidators ToSlice1 Hash Perm w1 seed rnd step limit =
             GetOnlineValidators ToSlice2 Hash Perm w2 seed rnd step limit"
    using assms by (intro GetOnlineValidators_cong) simp_all
qed

theorem GetOnlineValidators_deterministic_witness:
  "(\<forall>s :: Address fset. fset_of_list (sorted_list_of_fset s) = s) \<and>
   (\<forall>s :: Address fset. fset_of_list (rev (sorted_list_of_fset s)) = s) \<and>
   god (NewValidatorsCache addrC) = god sampleCache2 \<and>
   loadValidNodes sampleFromBytes sampleDB (NewValidatorsCache addrC) = Inr sampleCache \<and>
   loadValidNodes sampleFromBytes sampleDB sampleCache2 = Inr sampleCache \<and>
   GetOnlineValidators sorted_list_of_fset sampleHash samplePerm sampleCache sampleSeed 7 1 1 =
   GetOnlineValidators (\<lambda>s. rev (sorted_list_of_fset s)) sampleHash samplePerm sampleCache
     sampleSeed 7 1 1 \<and>
   sortedValidators sampleCache = sortedValidators (sampleCache\<lparr>pools := fmempty, height := 9\<rparr>) \<and>
   onlineNodesSet sampleCache = onlineNodesSet (sampleCache\<lparr>pools := fmempty, height := 9\<rparr>) \<and>
   nodesSet sampleCache = nodesSet (sampleCache\<lparr>pools := fmempty, height := 9\<rparr>) \<and>
   delegations sampleCache = delegations (sampleCache\<lparr>pools := fmempty, height := 9\<rparr>) \<and>
   god sampleCache = god (sampleCache\<lparr>pools := fmempty, height := 9\<rparr>) \<and>
   GetOnlineValidators sorted_list_of_fset sampleHash samplePerm sampleCache sampleSeed 7 1 1 =
   GetOnlineValidators (\<lambda>s. rev (sorted_list_of_fset s)) sampleHash samplePerm
     (sampleCache\<lparr>pools := fmempty, height := 9\<rparr>) sampleSeed 7 1 1"
proof -
  have e1: "\<forall>s :: Address fset. fset_of_list (sorted_list_of_fset s) = s"
    and e2: "\<forall>s :: Address fset. fset_of_list (rev (sorted_list_of_fset s)) = s"
    by simp_all
  have g: "god (NewValidatorsCache addrC) = god sampleCache2"
    by (simp add: NewValidatorsCache_def sampleCache2_def)
  note T = GetOnlineValidators_deterministic [OF e1 e2, of sampleCache "sampleCache\<lparr>pools := fmempty, height := 9\<rparr>"
      sampleHash samplePerm sampleSeed 7 1 1 "NewValidatorsCache addrC" sampleCache2
      sampleFromBytes sampleDB sampleCache sampleCache]
  have f: "sortedValidators sampleCache =
             sortedValidators (sampleCache\<lparr>pools := fmempty, height := 9\<rparr>)"
    "onlineNodesSet sampleCache = onlineNodesSet (sampleCache\<lparr>pools := fmempty, height := 9\<rparr>)"
    "nodesSet sampleCache = nodesSet (sampleCache\<lparr>pools := fmempty, height := 9\<rparr>)"
    "delegations sampleCache = delegations (sampleCache\<lparr>pools := fmempty, height := 9\<rparr>)"
    "god sampleCache = god (sampleCache\<lparr>pools := fmempty, height := 9\<rparr>)"
    by simp_all
  have r1: "GetOnlineValidators sorted_list_of_fset sampleHash samplePerm sampleCache
              sampleSeed 7 1 1 =
            GetOnlineValidators (\<lambda>s. rev (sorted_list_of_fset s)) sampleHash samplePerm
              (sampleCache\<lparr>pools := fmempty, height := 9\<rparr>) sampleSeed 7 1 1"
    using T f by blast
  have r2: "GetOnlineValidators sorted_list_of_fset sampleHash samplePerm sampleCache
              sampleSeed 7 1 1 =
            GetOnlineValidators (\<lambda>s. rev (sorted_list_of_fset s)) sampleHash samplePerm
              sampleCache sampleSeed 7 1 1"
    using T g load_sample reload_sample by blast
  show ?thesis
    by (intro conjI e1 e2 g load_sample reload_sample r1 r2 f)
qed

subsection \<open>The scan of a reload, step by step\<close>

lemma IterateIdentities_invariant:
  assumes "IterateIdentities es fn st = Inr st'" and "P st"
    and "\<And>k val s b s'. P s \<Longrightarrow> fn k val s = Inr (b, s') \<Longrightarrow> P s'"
  shows "P st'"
  using assms(1,2)
proof (induction es arbitrary: st)
  case Nil
  then show ?case by simp
next
  case (Cons e es)
  obtain key val where e: "e = (key, val)" by (cases e)
  from Cons.prems(1) e obtain b s1 where step: "fn key val st = Inr (b, s1)"
    by (auto split: sum.splits)
  then have P1: "P s1" using assms(3) Cons.prems(2) by blast
  show ?case
  proof (cases b)
    case True
    with Cons.prems(1) e step P1 show ?thesis by simp
  next
    case False
    with Cons.prems(1) e step have "IterateIdentities es fn s1 = Inr st'" by simp
    then show ?thesis using P1 by (rule Cons.IH)
  qed
qed

lemma scanIdentity_stop:
  assumes "scanIdentity FromBytes key val st = Inr (b, st')"
  shows "b = (key = None)" and "key = None \<Longrightarrow> st' = st"
  using assms
  by (auto simp: scanIdentity_def Let_def split: option.splits if_splits)

lemma scanIdentity_undecoded:
  assumes "scanIdentity FromBytes (Some k) val st = Inr (b, st')" and "FromBytes val = None"
  shows "st' = st"
  using assms by (simp add: scanIdentity_def split: if_splits)

lemma scanIdentity_decoded:
  assumes "scanIdentity FromBytes (Some k) val st = Inr (b, st')"
    and "FromBytes val = Some data"
  defines "addr \<equiv> SetBytes (drop 1 k)"
  shows "onlineNodes st' = (if Online data then onlineNodes st @ [addr] else onlineNodes st)"
    and "onlineNodesSet (cache st') =
           (if Online data then finsert addr (onlineNodesSet (cache st))
            else onlineNodesSet (cache st))"
    and "nodesSet (cache st') =
           (if Approved data then finsert addr (nodesSet (cache st)) else nodesSet (cache st))"
    and "pools (cache st') =
           (case Delegatee data of
              None \<Rightarrow> pools (cache st)
            | Some d \<Rightarrow>
                fmupd d (add (case fmlookup (pools (cache st)) d of Some l \<Rightarrow> l | None \<Rightarrow> []) addr)
                  (pools (cache st)))"
    and "delegations (cache st') =
           (case Delegatee data of
              None \<Rightarrow> delegations (cache st)
            | Some d \<Rightarrow> fmupd addr d (delegations (cache st)))"
proof -
  have k: "k \<noteq> []" using assms(1) by (auto simp: scanIdentity_def split: if_splits)
  note unfold = scanIdentity_def [of FromBytes "Some k" val st] assms(2) k Let_def addr_def
  have "snd (projr (Inr (b, st') :: panic + bool \<times> loadState)) = st'" by simp
  then have eq: "st' = snd (projr (scanIdentity FromBytes (Some k) val st))"
    by (simp add: assms(1))
  show "onlineNodes st' = (if Online data then onlineNodes st @ [addr] else onlineNodes st)"
    by (cases "Online data"; cases "Approved data"; cases "Delegatee data")
      (simp_all add: eq unfold)
  show "onlineNodesSet (cache st') =
           (if Online data then finsert addr (onlineNodesSet (cache st))
            else onlineNodesSet (cache st))"
    by (cases "Online data"; cases "Approved data"; cases "Delegatee data")
      (simp_all add: eq unfold)
  show "nodesSet (cache st') =
           (if Approved data then finsert addr (nodesSet (cache st)) else nodesSet (cache st))"
    by (cases "Online data"; cases "Approved data"; cases "Delegatee data")
      (simp_all add: eq unfold)
  show "pools (cache st') =
           (case Delegatee data of
              None \<Rightarrow> pools (cache st)
            | Some d \<Rightarrow>
                fmupd d (add (case fmlookup (pools (cache st)) d of Some l \<Rightarrow> l | None \<Rightarrow> []) addr)
                  (pools (cache st)))"
    by (cases "Online data"; cases "Approved data"; cases "Delegatee data")
      (simp_all add: eq unfold)
  show "delegations (cache st') =
           (case Delegatee data of
              None \<Rightarrow> delegations (cache st)
            | Some d \<Rightarrow> fmupd addr d (delegations (cache st)))"
    by (cases "Online data"; cases "Approved data"; cases "Delegatee data")
      (simp_all add: eq unfold)
qed

lemma scanIdentity_pools:
  assumes "scanIdentity FromBytes key val st = Inr (b, st')"
  shows "pools (cache st') = pools (cache st) \<or>
         (\<exists>d a. pools (cache st') =
            fmupd d (add (case fmlookup (pools (cache st)) d of Some l \<Rightarrow> l | None \<Rightarrow> []) a)
              (pools (cache st)))"
proof (cases key)
  case None
  then show ?thesis using scanIdentity_stop(2) [OF assms] by simp
next
  case (Some k)
  show ?thesis
  proof (cases "FromBytes val")
    case None
    then show ?thesis using scanIdentity_undecoded assms Some by blast
  next
    case (Some data)
    show ?thesis
      using scanIdentity_decoded(4) [OF assms [unfolded \<open>key = Some k\<close>] Some]
      by (cases "Delegatee data") auto
  qed
qed

lemma poolsSorted_fmupd:
  assumes "poolsSorted c"
    and "pools c' = fmupd d (add (case fmlookup (pools c) d of Some l \<Rightarrow> l | None \<Rightarrow> []) a) (pools c)"
  shows "poolsSorted c'"
proof -
  have "sorted (case fmlookup (pools c) d of Some l \<Rightarrow> l | None \<Rightarrow> [])"
    using assms(1) by (auto simp: poolsSorted_def split: option.splits)
  then have "sorted (add (case fmlookup (pools c) d of Some l \<Rightarrow> l | None \<Rightarrow> []) a)"
    by (rule sorted_add)
  then show ?thesis
    using assms by (auto simp: poolsSorted_def add_not_Nil split: if_splits)
qed

lemma scanIdentity_poolsSorted:
  assumes "poolsSorted (cache st)" and "scanIdentity FromBytes key val st = Inr (b, st')"
  shows "poolsSorted (cache st')"
proof -
  from scanIdentity_pools [OF assms(2)] show ?thesis
  proof
    assume "pools (cache st') = pools (cache st)"
    then show ?thesis using assms(1) by (simp add: poolsSorted_def)
  next
    assume "\<exists>d a. pools (cache st') =
            fmupd d (add (case fmlookup (pools (cache st)) d of Some l \<Rightarrow> l | None \<Rightarrow> []) a)
              (pools (cache st))"
    then show ?thesis using poolsSorted_fmupd [OF assms(1)] by blast
  qed
qed

lemma loadValidNodes_poolsSorted:
  assumes "loadValidNodes FromBytes db v = Inr v'"
  shows "poolsSorted v'"
proof -
  let ?st0 = "\<lparr>cache = v\<lparr>nodesSet := {||}, onlineNodesSet := {||}, delegations := fmempty,
                            pools := fmempty\<rparr>, onlineNodes = [], delegators = []\<rparr>"
  from assms obtain st where it: "IterateIdentities (identities db) (scanIdentity FromBytes) ?st0 = Inr st"
    and v': "v' = (cache st)\<lparr>sortedValidators := sortValidNodes (appendValidators (cache st) (onlineNodes st) []),
                            height := Version db\<rparr>"
    by (auto simp: loadValidNodes_def Let_def split: sum.splits)
  have "poolsSorted (cache ?st0)" by (simp add: poolsSorted_def)
  with it have "poolsSorted (cache st)"
    by (rule IterateIdentities_invariant [where P = "\<lambda>s. poolsSorted (cache s)"])
      (rule scanIdentity_poolsSorted)
  then show ?thesis by (simp add: v' poolsSorted_def)
qed

lemma reachable_poolsSorted: "reachable v \<Longrightarrow> poolsSorted v"
proof (induction rule: reachable.induct)
  case (reachable_New godAddress)
  show ?case by (simp add: poolsSorted_def NewValidatorsCache_def)
next
  case (reachable_Load v FromBytes db v')
  then show ?case by (simp add: Load_def loadValidNodes_poolsSorted)
next
  case (reachable_Refresh v FromBytes db godAddress block v')
  show ?case
  proof (cases "hasIdentityUpdate block")
    case True
    with reachable_Refresh.hyps(2) obtain v1 where
      "loadValidNodes FromBytes db v = Inr v1" "pools v' = pools v1"
      by (auto simp: RefreshIfUpdated_def split: sum.splits)
    then show ?thesis
      using loadValidNodes_poolsSorted [of FromBytes db v v1] by (simp add: poolsSorted_def)
  next
    case False
    with reachable_Refresh.hyps(2) have "pools v' = pools v"
      by (auto simp: RefreshIfUpdated_def)
    then show ?thesis using reachable_Refresh.IH by (simp add: poolsSorted_def)
  qed
qed

subsection \<open>Pool queries\<close>

text \<open>
  C7: \<open>ForkCommitteeSize\<close> is the cardinality of the approved set, minus the number of
  entries of the delegation map, plus the number of pool addresses that are not in the
  approved set, in whatever order the keys of the pools are ranged over (each key once).
\<close>

theorem ForkCommitteeSize_formula:
  assumes "distinct (rangeKeys (pools v))"
    and "fset_of_list (rangeKeys (pools v)) = fmdom (pools v)"
  shows "ForkCommitteeSize rangeKeys v =
           int (fcard (nodesSet v)) - int (fcard (fmdom (delegations v)))
           + int (fcard (ffilter (\<lambda>p. \<not> p |\<in>| nodesSet v) (fmdom (pools v))))"
proof -
  let ?ks = "rangeKeys (pools v)"
  let ?P = "\<lambda>p. \<not> p |\<in>| nodesSet v"
  have "fcard (ffilter ?P (fmdom (pools v))) = fcard (fset_of_list (filter ?P ?ks))"
    using assms(2) by (metis ffilter_of_list)
  also have "\<dots> = length (filter ?P ?ks)"
    using assms(1) fcard_of_distinct_list [of "filter ?P ?ks"] by simp
  finally show ?thesis
    by (simp add: ForkCommitteeSize_def foldl_count NetworkSize_def)
qed

theorem ForkCommitteeSize_formula_witness:
  "distinct (sorted_list_of_fset (fmdom (pools sampleCache))) \<and>
   fset_of_list (sorted_list_of_fset (fmdom (pools sampleCache))) = fmdom (pools sampleCache) \<and>
   ForkCommitteeSize (\<lambda>m. sorted_list_of_fset (fmdom m)) sampleCache = 1"
  using ForkCommitteeSize_formula [of "\<lambda>m. sorted_list_of_fset (fmdom m)" sampleCache]
  by (simp add: distinct_sorted_list_of_fset sampleCache_def addr_distinct fcard_finsert_if
      ffilter_finsert_if ffilter_fempty)

lemma addr_compare2:
  "bytes_Compare addrC addrA = - 1" "bytes_Compare addrA addrC = 1"
  "bytes_Compare addrB addrC = - 1" "bytes_Compare addrC addrB = 1"
  "bytes_Compare addrA addrA = 0" "bytes_Compare addrB addrB = 0" "bytes_Compare addrC addrC = 0"
  by (simp_all add: addrA_def addrB_def addrC_def)

lemma add_samples: "add [addrC] addrB = [addrB, addrC]"
  by (simp add: add_def Search_def Search_loop.simps addr_compare2 Let_def)

lemma load_sample2:
  "loadValidNodes sampleFromBytes sampleDB2 (NewValidatorsCache addrC) = Inr sampleCache2"
  by (simp add: loadValidNodes_def sampleDB2_def NewValidatorsCache_def scanIdentity_def
      sampleFromBytes_def SetBytes_def add_to_empty add_samples sampleCache2_def addr_distinct
      sortValidNodes_def SliceStable_def Let_def addr_compare addr_compare2 finsert_commute
      fmupd_reorder_neq)

lemma reachable_sample2: "reachable sampleCache2"
  using reachable_Load [OF reachable_New, of sampleFromBytes sampleDB2 addrC sampleCache2]
  by (simp add: Load_def load_sample2)

lemma foldl_uncount:
  "foldl (\<lambda>size e. if P e then size - 1 else size) (a::int) es = a - int (length (filter P es))"
  by (induction es arbitrary: a) auto

lemma PoolSizeExceptNodes_count:
  "fmlookup (pools v) pool = Some s \<Longrightarrow>
     PoolSizeExceptNodes v pool exceptNodes =
       PoolSize v pool - int (length (filter (\<lambda>e. index s e > 0) exceptNodes))"
  by (simp add: PoolSizeExceptNodes_def PoolSize_def Let_def foldl_uncount)

text \<open>
  C8: in every state a cache can be in, for a pool address with pool list \<open>s\<close>,
  \<open>PoolSizeExceptNodes\<close> is \<open>PoolSize\<close> minus one for each entry of the excluded list
  whose \<open>index\<close> in \<open>s\<close> is greater than zero. The index of an address that is not in
  \<open>s\<close> is \<open>-1\<close>, and the index of an address of \<open>s\<close> is the position of its first
  occurrence, so an address at position 0 has index 0: neither is subtracted. For an
  address without a pool the result is 0.
\<close>

theorem PoolSizeExceptNodes_formula:
  assumes "reachable v"
  shows "(\<forall>s. fmlookup (pools v) pool = Some s \<longrightarrow>
            PoolSizeExceptNodes v pool exceptNodes =
              PoolSize v pool - int (length (filter (\<lambda>e. index s e > 0) exceptNodes)) \<and>
            (\<forall>e. e \<notin> set s \<longrightarrow> index s e = - 1) \<and>
            (\<forall>e k. k < length s \<and> s ! k = e \<and> (\<forall>j<k. s ! j \<noteq> e) \<longrightarrow> index s e = int k)) \<and>
         (\<not> IsPool v pool \<longrightarrow> PoolSizeExceptNodes v pool exceptNodes = 0)"
proof -
  have srt: "sorted s" if "fmlookup (pools v) pool = Some s" for s
    using reachable_poolsSorted [OF assms] that by (simp add: poolsSorted_def)
  have "\<not> IsPool v pool \<longrightarrow> PoolSizeExceptNodes v pool exceptNodes = 0"
    by (simp add: IsPool_def PoolSizeExceptNodes_def)
  moreover have "index s e = int k"
    if "fmlookup (pools v) pool = Some s" "k < length s" "s ! k = e" "\<forall>j<k. s ! j \<noteq> e" for s e k
    using srt [OF that(1)] that(2-4) by (rule index_first)
  ultimately show ?thesis
    using PoolSizeExceptNodes_count [of v pool _ exceptNodes] index_absent by blast
qed

theorem PoolSizeExceptNodes_formula_witness:
  "reachable sampleCache2 \<and> fmlookup (pools sampleCache2) addrA = Some [addrB, addrC] \<and>
   PoolSize sampleCache2 addrA = 3 \<and>
   index [addrB, addrC] addrB = 0 \<and> index [addrB, addrC] addrC = 1 \<and>
   index [addrB, addrC] addrA = - 1 \<and>
   PoolSizeExceptNodes sampleCache2 addrA [addrB, addrC, addrA] = 2 \<and>
   \<not> IsPool sampleCache2 addrB \<and> PoolSizeExceptNodes sampleCache2 addrB [addrA] = 0"
proof -
  have p: "fmlookup (pools sampleCache2) addrA = Some [addrB, addrC]"
    by (simp add: sampleCache2_def)
  have n: "\<not> IsPool sampleCache2 addrB"
    by (simp add: IsPool_def sampleCache2_def addr_distinct)
  have s: "PoolSize sampleCache2 addrA = 3"
    by (simp add: PoolSize_def sampleCache2_def)
  note A = PoolSizeExceptNodes_formula [OF reachable_sample2, of addrA "[addrB, addrC, addrA]"]
  note B = PoolSizeExceptNodes_formula [OF reachable_sample2, of addrB "[addrA]"]
  from A p have
    cnt: "PoolSizeExceptNodes sampleCache2 addrA [addrB, addrC, addrA] =
            PoolSize sampleCache2 addrA
            - int (length (filter (\<lambda>e. index [addrB, addrC] e > 0) [addrB, addrC, addrA]))"
    and absent: "\<And>e. e \<notin> set [addrB, addrC] \<Longrightarrow> index [addrB, addrC] e = - 1"
    and first: "\<And>e k. k < length [addrB, addrC] \<Longrightarrow> [addrB, addrC] ! k = e \<Longrightarrow>
                  (\<forall>j<k. [addrB, addrC] ! j \<noteq> e) \<Longrightarrow> index [addrB, addrC] e = int k"
    by blast+
  have i0: "index [addrB, addrC] addrB = 0"
    using first [of 0 addrB] by simp
  have i1: "index [addrB, addrC] addrC = 1"
    using first [of 1 addrC] by (simp add: addr_distinct)
  have i2: "index [addrB, addrC] addrA = - 1"
    using absent [of addrA] by (simp add: addr_distinct)
  have "PoolSizeExceptNodes sampleCache2 addrA [addrB, addrC, addrA] = 2"
    by (simp add: cnt s i0 i1 i2)
  moreover have "PoolSizeExceptNodes sampleCache2 addrB [addrA] = 0"
    using B n by blast
  ultimately show ?thesis
    using p n s i0 i1 i2 reachable_sample2 by simp
qed

text \<open>
  C10: in every state a cache can be in, when the address has a pool \<open>FindSubIdentity\<close>
  returns, for every nonce, an address of the candidate list (the pool address when it is
  approved, then the sorted delegators); a nonce beyond the list gives the first candidate
  and the next nonce 1, a nonce within the list (shorter than \<open>2^32\<close>) gives the
  candidate at the nonce and the nonce plus one. When the address has no pool the call
  panics on the nil pool pointer.
\<close>

theorem FindSubIdentity_safe:
  assumes "reachable v"
  shows "(IsPool v pool \<longrightarrow>
           (\<exists>a n. FindSubIdentity v pool nonce = Inr (a, n) \<and> a \<in> set (candidates v pool) \<and>
              (length (candidates v pool) \<le> unat nonce \<longrightarrow> a = candidates v pool ! 0 \<and> n = 1) \<and>
              (unat nonce < length (candidates v pool) \<and> length (candidates v pool) < 2 ^ 32 \<longrightarrow>
                 a = candidates v pool ! unat nonce \<and> n = nonce + 1))) \<and>
         (\<not> IsPool v pool \<longrightarrow> FindSubIdentity v pool nonce = Inl NilPointerDereference)"
proof (cases "fmlookup (pools v) pool")
  case None
  then show ?thesis by (simp add: IsPool_def FindSubIdentity_def)
next
  case (Some l)
  let ?c = "candidates v pool"
  have c: "?c = (if pool |\<in>| nodesSet v then [pool] @ l else l)"
    by (simp add: candidates_def Some)
  have "l \<noteq> []" using reachable_poolsSorted [OF assms] Some by (simp add: poolsSorted_def)
  then have ne: "0 < length ?c" by (simp add: c)
  let ?n1 = "if nonce \<ge> word_of_nat (length ?c) then 0 else nonce"
  have ucast_le: "unat (word_of_nat (length ?c) :: 32 word) \<le> length ?c"
    by (simp add: unat_of_nat)
  have inr: "unat ?n1 < length ?c"
  proof (cases "nonce \<ge> word_of_nat (length ?c)")
    case True
    then show ?thesis using ne by simp
  next
    case False
    then have "unat nonce < unat (word_of_nat (length ?c) :: 32 word)"
      by (simp add: word_less_nat_alt not_le)
    with ucast_le False show ?thesis by simp
  qed
  have res: "FindSubIdentity v pool nonce = Inr (?c ! unat ?n1, ?n1 + 1)"
    using inr by (simp add: FindSubIdentity_def Some c Let_def)
  have out: "?n1 = 0" if "length ?c \<le> unat nonce"
  proof -
    have "unat (word_of_nat (length ?c) :: 32 word) \<le> unat nonce"
      using that ucast_le by linarith
    then have "nonce \<ge> word_of_nat (length ?c)" by (simp add: word_le_nat_alt)
    then show ?thesis by simp
  qed
  have inside: "?n1 = nonce" if "unat nonce < length ?c" "length ?c < 2 ^ 32"
  proof -
    have "unat (word_of_nat (length ?c) :: 32 word) = length ?c"
      using that(2) by (simp add: unat_of_nat)
    then have "\<not> nonce \<ge> word_of_nat (length ?c)"
      using that(1) by (simp add: word_le_nat_alt)
    then show ?thesis by simp
  qed
  have mem: "?c ! unat ?n1 \<in> set ?c" using inr by (rule nth_mem)
  have "IsPool v pool" by (simp add: IsPool_def Some)
  moreover have "\<exists>a n. FindSubIdentity v pool nonce = Inr (a, n) \<and> a \<in> set ?c \<and>
              (length ?c \<le> unat nonce \<longrightarrow> a = ?c ! 0 \<and> n = 1) \<and>
              (unat nonce < length ?c \<and> length ?c < 2 ^ 32 \<longrightarrow>
                 a = ?c ! unat nonce \<and> n = nonce + 1)"
  proof (intro exI conjI impI)
    show "FindSubIdentity v pool nonce = Inr (?c ! unat ?n1, ?n1 + 1)" by (rule res)
    show "?c ! unat ?n1 \<in> set ?c" by (rule mem)
    show "?c ! unat ?n1 = ?c ! 0" if "length ?c \<le> unat nonce"
      using out [OF that] by simp
    show "?n1 + 1 = 1" if "length ?c \<le> unat nonce"
      using out [OF that] by simp
    show "?c ! unat ?n1 = ?c ! unat nonce" if "unat nonce < length ?c \<and> length ?c < 2 ^ 32"
      using inside that by simp
    show "?n1 + 1 = nonce + 1" if "unat nonce < length ?c \<and> length ?c < 2 ^ 32"
      using inside that by simp
  qed
  ultimately show ?thesis by blast
qed


theorem FindSubIdentity_safe_witness:
  "reachable sampleCache2 \<and> IsPool sampleCache2 addrA \<and>
   candidates sampleCache2 addrA = [addrA, addrB, addrC] \<and>
   FindSubIdentity sampleCache2 addrA 2 = Inr (addrC, 3) \<and>
   FindSubIdentity sampleCache2 addrA 3 = Inr (addrA, 1) \<and>
   \<not> IsPool sampleCache2 addrB \<and>
   FindSubIdentity sampleCache2 addrB 0 = Inl NilPointerDereference"
proof -
  have p: "IsPool sampleCache2 addrA" and n: "\<not> IsPool sampleCache2 addrB"
    by (simp_all add: IsPool_def sampleCache2_def addr_distinct)
  have c: "candidates sampleCache2 addrA = [addrA, addrB, addrC]"
    by (simp add: candidates_def sampleCache2_def)
  from FindSubIdentity_safe [OF reachable_sample2, of addrA 2] p c obtain a2 n2 where
    "FindSubIdentity sampleCache2 addrA 2 = Inr (a2, n2)"
    "unat (2 :: 32 word) < length [addrA, addrB, addrC] \<and>
       length [addrA, addrB, addrC] < (2 :: nat) ^ 32 \<longrightarrow>
     a2 = [addrA, addrB, addrC] ! unat (2 :: 32 word) \<and> n2 = 2 + 1"
    by auto
  then have r2: "FindSubIdentity sampleCache2 addrA 2 = Inr (addrC, 3)"
    by simp
  from FindSubIdentity_safe [OF reachable_sample2, of addrA 3] p c obtain a3 n3 where
    "FindSubIdentity sampleCache2 addrA 3 = Inr (a3, n3)"
    "length [addrA, addrB, addrC] \<le> unat (3 :: 32 word) \<longrightarrow>
     a3 = [addrA, addrB, addrC] ! 0 \<and> n3 = 1"
    by auto
  then have r3: "FindSubIdentity sampleCache2 addrA 3 = Inr (addrA, 1)"
    by simp
  have r0: "FindSubIdentity sampleCache2 addrB 0 = Inl NilPointerDereference"
    using FindSubIdentity_safe [OF reachable_sample2, of addrB 0] n by blast
  show ?thesis
    using reachable_sample2 p n c r2 r3 r0 by simp
qed

subsection \<open>Reloading\<close>


lemma loadValidNodes_height:
  "loadValidNodes FromBytes db v = Inr v' \<Longrightarrow> height v' = Version db"
  by (auto simp: loadValidNodes_def Let_def split: sum.splits)

text \<open>
  C9, as the code has it: after a completed \<open>Load\<close> the height is the version of the
  identity state that was read. After a completed \<open>RefreshIfUpdated\<close> the height is the
  height of the block that was passed in, with and without the \<open>IdentityUpdate\<close> flag:
  the assignment \<open>v.height = block.Height()\<close> follows the conditional reload.
\<close>

theorem Height_after_update:
  "(Load FromBytes db v = Inr v' \<longrightarrow> Height v' = Version db) \<and>
   (RefreshIfUpdated FromBytes db v godAddress block = Inr v'' \<longrightarrow>
      Height v'' = blockHeight block)"
  by (auto simp: Load_def Height_def RefreshIfUpdated_def loadValidNodes_height
      split: sum.splits if_splits)

theorem Height_after_update_witness:
  "Load sampleFromBytes sampleDB (NewValidatorsCache addrC) = Inr sampleCache \<and>
   Height sampleCache = Version sampleDB \<and>
   RefreshIfUpdated sampleFromBytes sampleDB sampleCache addrA
     \<lparr>hasIdentityUpdate = False, blockHeight = 6\<rparr> =
     Inr (sampleCache\<lparr>god := addrA, height := 6\<rparr>) \<and>
   Height (sampleCache\<lparr>god := addrA, height := 6\<rparr>) =
     blockHeight \<lparr>hasIdentityUpdate = False, blockHeight = 6\<rparr>"
  using Height_after_update [where FromBytes = sampleFromBytes and db = sampleDB
        and v = "NewValidatorsCache addrC" and v' = sampleCache]
    Height_after_update [where FromBytes = sampleFromBytes and db = sampleDB and v = sampleCache
        and godAddress = addrA and block = "\<lparr>hasIdentityUpdate = False, blockHeight = 6\<rparr>"
        and v'' = "sampleCache\<lparr>god := addrA, height := 6\<rparr>"]
  by (simp add: Load_def load_sample RefreshIfUpdated_def)

text \<open>
  C9 as stated fails: the cache is rebuilt from the identity state of version 5, then
  refreshed with a block of height 6 that does not carry the flag. Nothing is rebuilt, and
  the height is 6, not the version 5 of the last rebuild.
\<close>

theorem Height_after_update_counterexample:
  "Load sampleFromBytes sampleDB (NewValidatorsCache addrC) = Inr sampleCache \<and>
   Version sampleDB = 5 \<and>
   RefreshIfUpdated sampleFromBytes sampleDB sampleCache addrC
     \<lparr>hasIdentityUpdate = False, blockHeight = 6\<rparr> =
     Inr (sampleCache\<lparr>god := addrC, height := 6\<rparr>) \<and>
   Height (sampleCache\<lparr>god := addrC, height := 6\<rparr>) = 6"
proof -
  have "Version sampleDB = 5"
    by (simp add: sampleDB_def)
  moreover have "Height (sampleCache\<lparr>god := addrC, height := 6\<rparr>) = 6"
    by (simp add: Height_def)
  ultimately show ?thesis
    by (simp add: Load_def load_sample RefreshIfUpdated_def)
qed

text \<open>
  The callback answers a record that does not decode with \<open>false\<close>, which by the
  contract of the iteration means "do not stop"; it answers a nil key with \<open>true\<close>.
\<close>

lemma scanIdentity_decodeFails:
  "decodeFails FromBytes (key, val) \<Longrightarrow> scanIdentity FromBytes key val st = Inr (False, st)"
  by (auto simp: decodeFails_def scanIdentity_def Let_def split: option.splits)

lemma scanIdentity_nil: "scanIdentity FromBytes None val st = Inr (True, st)"
  by (simp add: scanIdentity_def)

lemma IterateIdentities_skip:
  "IterateIdentities (filter (\<lambda>e. \<not> decodeFails FromBytes e) es) (scanIdentity FromBytes) st =
   IterateIdentities es (scanIdentity FromBytes) st"
proof (induction es arbitrary: st)
  case Nil
  show ?case by simp
next
  case (Cons e es)
  obtain key val where e: "e = (key, val)" by (cases e)
  show ?case
  proof (cases "decodeFails FromBytes e")
    case True
    then show ?thesis using Cons e by (simp add: scanIdentity_decodeFails)
  next
    case False
    then show ?thesis using Cons e by (simp split: sum.splits prod.splits)
  qed
qed

lemma IterateIdentities_nil_key:
  "IterateIdentities (pre @ (None, val) # post) (scanIdentity FromBytes) st =
   IterateIdentities pre (scanIdentity FromBytes) st"
proof (induction pre arbitrary: st)
  case Nil
  show ?case by (simp add: scanIdentity_nil)
next
  case (Cons e pre)
  obtain key val' where e: "e = (key, val')" by (cases e)
  show ?case using Cons e by (simp split: sum.splits prod.splits)
qed

text \<open>
  C2, as the code has it: a record whose value does not decode is skipped and the scan
  goes on with the next record, so a reload gives what it gives on the identity state
  without the records that do not decode. The scan stops early at a nil key only: the
  records after it are not read.
\<close>

theorem loadValidNodes_skips_undecodable:
  "loadValidNodes FromBytes
     (db\<lparr>identities := filter (\<lambda>e. \<not> decodeFails FromBytes e) (identities db)\<rparr>) v =
   loadValidNodes FromBytes db v \<and>
   loadValidNodes FromBytes (db\<lparr>identities := pre @ (None, val) # post\<rparr>) v =
   loadValidNodes FromBytes (db\<lparr>identities := pre\<rparr>) v"
  by (simp add: loadValidNodes_def IterateIdentities_skip IterateIdentities_nil_key
      cong: sum.case_cong)

text \<open>
  C2 as stated fails: the value of the first record does not decode, and the second
  record, approved and online, is in the cache all the same.
\<close>

theorem loadValidNodes_decode_failure_counterexample:
  "sampleFromBytes [] = None \<and>
   loadValidNodes sampleFromBytes
     \<lparr>identities = [(Some (1 # addrA), []), (Some (1 # addrB), [3])], Version = 5\<rparr>
     (NewValidatorsCache addrC) =
   Inr \<lparr>sortedValidators = [addrB], pools = fmempty, delegations = fmempty,
        nodesSet = {|addrB|}, onlineNodesSet = {|addrB|}, god = addrC, height = 5\<rparr>"
  by (simp add: loadValidNodes_def NewValidatorsCache_def scanIdentity_def
      sampleFromBytes_def SetBytes_def sortValidNodes_def SliceStable_def Let_def)

subsection \<open>The validator list of a reload\<close>

text \<open>
  The insertion step puts the element behind the elements of the sorted prefix it is not
  \<open>less\<close> than; the sort keeps the elements and, for the byte order, gives a descending
  list.
\<close>

lemma bubble_split:
  "bubble lt ps x suf = rev (dropWhile (lt x) ps) @ x # rev (takeWhile (lt x) ps) @ suf"
  by (induction ps arbitrary: suf) simp_all

lemma mset_bubble: "mset (bubble lt ps x suf) = mset ps + {#x#} + mset suf"
proof -
  have "mset ps = mset (takeWhile (lt x) ps) + mset (dropWhile (lt x) ps)"
    by (metis mset_append takeWhile_dropWhile_id)
  then show ?thesis by (simp add: bubble_split)
qed

lemma mset_SliceStable_aux:
  "mset (foldl (\<lambda>front x. bubble lt (rev front) x []) acc xs) = mset acc + mset xs"
  by (induction xs arbitrary: acc) (simp_all add: mset_bubble)

lemma mset_SliceStable: "mset (SliceStable lt xs) = mset xs"
  by (simp add: SliceStable_def mset_SliceStable_aux)

lemma dropWhile_sorted_ge:
  fixes r :: "'a::linorder list"
  assumes "sorted r" and "y \<in> set (dropWhile (\<lambda>p. p < x) r)"
  shows "x \<le> y"
proof -
  let ?d = "dropWhile (\<lambda>p. p < x) r"
  have ne: "?d \<noteq> []" using assms(2) by (metis empty_iff empty_set)
  then have "\<not> hd ?d < x" by (rule hd_dropWhile)
  moreover have "sorted ?d" using assms(1) by (rule sorted_dropWhile)
  then have "hd ?d \<le> y" using assms(2) ne by (cases ?d) auto
  ultimately show ?thesis by simp
qed

lemma sorted_bubble:
  fixes r :: "'a::linorder list"
  assumes "sorted r"
  shows "sorted (rev (bubble (\<lambda>a b. b < a) r x []))"
proof -
  let ?t = "takeWhile (\<lambda>p. p < x) r" and ?d = "dropWhile (\<lambda>p. p < x) r"
  have "sorted ?t" "sorted ?d" using assms by (simp_all add: sorted_takeWhile sorted_dropWhile)
  moreover have "\<forall>y\<in>set ?t. y \<le> x" by (auto dest: set_takeWhileD)
  moreover have "\<forall>y\<in>set ?d. x \<le> y" using assms by (auto dest: dropWhile_sorted_ge)
  ultimately have "sorted (?t @ x # ?d)"
    by (auto simp: sorted_append intro: order_trans)
  then show ?thesis by (simp add: bubble_split)
qed

lemma sorted_SliceStable_aux:
  fixes acc :: "'a::linorder list"
  shows "sorted (rev acc) \<Longrightarrow>
         sorted (rev (foldl (\<lambda>front x. bubble (\<lambda>a b. b < a) (rev front) x []) acc xs))"
  by (induction xs arbitrary: acc) (simp_all add: sorted_bubble)

lemma sorted_SliceStable:
  fixes xs :: "'a::linorder list"
  shows "sorted (rev (SliceStable (\<lambda>a b. b < a) xs))"
  by (simp add: SliceStable_def sorted_SliceStable_aux)

lemma sortValidNodes_mset: "mset (sortValidNodes nodes) = mset nodes"
  by (simp add: sortValidNodes_def mset_SliceStable)

lemma sortValidNodes_descending:
  "sorted_wrt (\<lambda>a b. bytes_Compare a b \<ge> 0) (sortValidNodes nodes)"
proof -
  have "sorted (rev (sortValidNodes nodes))"
    by (simp add: sortValidNodes_def bytes_Compare_gt sorted_SliceStable)
  then show ?thesis
    by (simp add: sorted_wrt_rev bytes_Compare_ge)
qed

lemma sortValidNodes_strict:
  assumes "distinct nodes"
  shows "distinct (sortValidNodes nodes)"
    and "sorted_wrt (\<lambda>a b. bytes_Compare a b > 0) (sortValidNodes nodes)"
proof -
  show d: "distinct (sortValidNodes nodes)"
    using assms sortValidNodes_mset [of nodes] by (metis mset_eq_imp_distinct_iff)
  have "sorted (rev (sortValidNodes nodes))"
    by (simp add: sortValidNodes_def bytes_Compare_gt sorted_SliceStable)
  with d have "sorted_wrt (<) (rev (sortValidNodes nodes))"
    by (simp add: strict_sorted_iff)
  then show "sorted_wrt (\<lambda>a b. bytes_Compare a b > 0) (sortValidNodes nodes)"
    by (simp add: sorted_wrt_rev bytes_Compare_gt)
qed

text \<open>The validators before sorting are the contributions of the online nodes, in scan order.\<close>

lemma appendValidators_concat:
  "appendValidators v ns acc = acc @ concat (map (contribution v) ns)"
  by (induction ns arbitrary: acc) (auto simp: contribution_def Let_def split: option.splits)

lemma distinct_concat_map:
  assumes "distinct ns"
    and "\<And>n. n \<in> set ns \<Longrightarrow> distinct (f n)"
    and "\<And>n m. n \<in> set ns \<Longrightarrow> m \<in> set ns \<Longrightarrow> n \<noteq> m \<Longrightarrow> set (f n) \<inter> set (f m) = {}"
  shows "distinct (concat (map f ns))"
  using assms
proof (induction ns)
  case Nil
  show ?case by simp
next
  case (Cons n ns)
  have "distinct (concat (map f ns))"
    using Cons by auto
  moreover have "set (f n) \<inter> set (f m) = {}" if "m \<in> set ns" for m
    using Cons.prems(1) Cons.prems(3) [of n m] that by auto
  ultimately show ?case using Cons.prems(2) by auto
qed


lemma scanIdentity_scanInv:
  assumes step: "scanIdentity FromBytes (Some k) val st = Inr (b, st')"
    and inv: "scanInv st"
    and fresh1: "SetBytes (drop 1 k) \<notin> set (onlineNodes st)"
    and fresh2: "SetBytes (drop 1 k) |\<notin>| fmdom (delegations (cache st))"
  shows "scanInv st'"
    and "set (onlineNodes st') \<subseteq> insert (SetBytes (drop 1 k)) (set (onlineNodes st))"
    and "fmdom (delegations (cache st')) |\<subseteq>|
           finsert (SetBytes (drop 1 k)) (fmdom (delegations (cache st)))"
proof -
  let ?addr = "SetBytes (drop 1 k)"
  have all: "scanInv st' \<and> set (onlineNodes st') \<subseteq> insert ?addr (set (onlineNodes st)) \<and>
             fmdom (delegations (cache st')) |\<subseteq>| finsert ?addr (fmdom (delegations (cache st)))"
  proof (cases "FromBytes val")
    case None
    then have "st' = st" using step by (rule scanIdentity_undecoded [rotated])
    then show ?thesis using inv by auto
  next
    case (Some data)
    note F = scanIdentity_decoded [OF step Some]
    have nolookup: "fmlookup (delegations (cache st)) ?addr = None"
      using fresh2 by (simp add: fmdom_notD)
    have on1: "distinct (onlineNodes st')"
      using inv fresh1 by (simp add: F(1) scanInv_def)
    have on2: "fset_of_list (onlineNodes st') = onlineNodesSet (cache st')"
      using inv by (auto simp: F(1,2) scanInv_def)
    have on3: "set (onlineNodes st') \<subseteq> insert ?addr (set (onlineNodes st))"
      by (auto simp: F(1))
    have dl: "fmdom (delegations (cache st')) |\<subseteq>| finsert ?addr (fmdom (delegations (cache st)))"
      by (cases "Delegatee data") (auto simp: F(5))
    have old: "distinct l \<and> (\<forall>a\<in>set l. fmlookup (delegations (cache st)) a = Some d)"
      if "fmlookup (pools (cache st)) d = Some l" for d l
      using inv that by (simp add: scanInv_def)
    have pl: "distinct l \<and> (\<forall>a\<in>set l. fmlookup (delegations (cache st')) a = Some d')"
      if look: "fmlookup (pools (cache st')) d' = Some l" for d' l
    proof (cases "Delegatee data")
      case None
      then show ?thesis using look old by (simp add: F(4,5))
    next
      case (Some d)
      let ?l0 = "case fmlookup (pools (cache st)) d of Some l \<Rightarrow> l | None \<Rightarrow> []"
      have P: "pools (cache st') = fmupd d (add ?l0 ?addr) (pools (cache st))"
        and D: "delegations (cache st') = fmupd ?addr d (delegations (cache st))"
        using F(4,5) Some by simp_all
      have l0: "distinct ?l0 \<and> (\<forall>a\<in>set ?l0. fmlookup (delegations (cache st)) a = Some d)"
        using old [of d] by (cases "fmlookup (pools (cache st)) d") simp_all
      show ?thesis
      proof (cases "d' = d")
        case True
        then have l: "l = add ?l0 ?addr" using look P by simp
        have "?addr \<notin> set ?l0" using l0 nolookup by auto
        then have "distinct l" using l0 by (simp add: l distinct_add)
        moreover have "\<forall>a\<in>set l. fmlookup (delegations (cache st')) a = Some d'"
          using l0 True by (auto simp: l set_add D)
        ultimately show ?thesis by simp
      next
        case False
        then have "fmlookup (pools (cache st)) d' = Some l" using look P by simp
        then have o: "distinct l \<and> (\<forall>a\<in>set l. fmlookup (delegations (cache st)) a = Some d')"
          by (rule old)
        then have "\<forall>a\<in>set l. a \<noteq> ?addr" using nolookup by auto
        then show ?thesis using o by (auto simp: D)
      qed
    qed
    show ?thesis
      using on1 on2 on3 dl pl by (simp add: scanInv_def)
  qed
  show "scanInv st'"
    and "set (onlineNodes st') \<subseteq> insert ?addr (set (onlineNodes st))"
    and "fmdom (delegations (cache st')) |\<subseteq>| finsert ?addr (fmdom (delegations (cache st)))"
    using all by simp_all
qed

lemma IterateIdentities_scanInv:
  assumes "IterateIdentities es (scanIdentity FromBytes) st = Inr st'"
    and "scanInv st"
    and "distinct (keyAddresses es)"
    and "\<forall>a\<in>set (keyAddresses es).
           a \<notin> set (onlineNodes st) \<and> a |\<notin>| fmdom (delegations (cache st))"
  shows "scanInv st'"
  using assms
proof (induction es arbitrary: st)
  case Nil
  then show ?case by simp
next
  case (Cons e es)
  obtain key val where e: "e = (key, val)" by (cases e)
  from Cons.prems(1) e obtain b s1 where step: "scanIdentity FromBytes key val st = Inr (b, s1)"
    by (auto split: sum.splits)
  show ?case
  proof (cases key)
    case None
    then have "s1 = st" "b" using scanIdentity_stop [OF step] by simp_all
    then show ?thesis using Cons.prems(1,2) e step by simp
  next
    case (Some k)
    let ?addr = "SetBytes (drop 1 k)"
    have nb: "\<not> b" using scanIdentity_stop(1) [OF step] Some by simp
    have rest: "IterateIdentities es (scanIdentity FromBytes) s1 = Inr st'"
      using Cons.prems(1) e step nb by simp
    have ka: "keyAddresses (e # es) = ?addr # keyAddresses es"
      by (simp add: e Some)
    have f1: "?addr \<notin> set (onlineNodes st)" and f2: "?addr |\<notin>| fmdom (delegations (cache st))"
      using Cons.prems(4) ka by simp_all
    note S = scanIdentity_scanInv [OF step [unfolded Some] Cons.prems(2) f1 f2]
    have d: "distinct (keyAddresses es)" and n: "?addr \<notin> set (keyAddresses es)"
      using Cons.prems(3) ka by simp_all
    have "\<forall>a\<in>set (keyAddresses es).
           a \<notin> set (onlineNodes s1) \<and> a |\<notin>| fmdom (delegations (cache s1))"
    proof
      fix a assume a: "a \<in> set (keyAddresses es)"
      then have "a \<noteq> ?addr" using n by auto
      moreover have "a \<notin> set (onlineNodes st)" "a |\<notin>| fmdom (delegations (cache st))"
        using Cons.prems(4) ka a by simp_all
      ultimately show "a \<notin> set (onlineNodes s1) \<and> a |\<notin>| fmdom (delegations (cache s1))"
        using S(2,3) by auto
    qed
    with rest S(1) d show ?thesis by (rule Cons.IH)
  qed
qed


text \<open>A scan panics only on an empty key.\<close>

lemma scanIdentity_returns:
  "k \<noteq> [] \<Longrightarrow> \<exists>st'. scanIdentity FromBytes (Some k) val st = Inr (False, st')"
  by (cases "FromBytes val") (simp_all add: scanIdentity_def Let_def)

lemma IterateIdentities_returns:
  "[] \<notin> set (scannedKeys es) \<Longrightarrow> \<exists>st'. IterateIdentities es (scanIdentity FromBytes) st = Inr st'"
proof (induction es arbitrary: st)
  case Nil
  show ?case by simp
next
  case (Cons e es)
  obtain key val where e: "e = (key, val)" by (cases e)
  show ?case
  proof (cases key)
    case None
    then show ?thesis by (simp add: e scanIdentity_nil)
  next
    case (Some k)
    then have "k \<noteq> []" and r: "[] \<notin> set (scannedKeys es)"
      using Cons.prems e by auto
    then obtain s1 where "scanIdentity FromBytes (Some k) val st = Inr (False, s1)"
      using scanIdentity_returns by blast
    then show ?thesis using Cons.IH [OF r, of s1] by (simp add: e Some)
  qed
qed

lemma loadValidNodes_returns:
  assumes "[] \<notin> set (scannedKeys (identities db))"
  shows "\<exists>v'. loadValidNodes FromBytes db v = Inr v'"
proof -
  obtain st where
    "IterateIdentities (identities db) (scanIdentity FromBytes)
       \<lparr>cache = v\<lparr>nodesSet := {||}, onlineNodesSet := {||}, delegations := fmempty,
                   pools := fmempty\<rparr>, onlineNodes = [], delegators = []\<rparr> = Inr st"
    using IterateIdentities_returns [OF assms] by blast
  then show ?thesis by (simp add: loadValidNodes_def Let_def)
qed

lemma distinct_contributions:
  assumes "scanInv st" and "noOnlineApprovedDelegator (cache st)"
  shows "distinct (concat (map (contribution (cache st)) (onlineNodes st)))"
proof (rule distinct_concat_map)
  let ?c = "cache st"
  have online: "n |\<in>| onlineNodesSet ?c" if "n \<in> set (onlineNodes st)" for n
    using assms(1) that by (metis fset_of_list_elem scanInv_def)
  have pool: "distinct l \<and> (\<forall>a\<in>set l. fmlookup (delegations ?c) a = Some d)"
    if "fmlookup (pools ?c) d = Some l" for d l
    using assms(1) that by (simp add: scanInv_def)
  have noself: "fmlookup (delegations ?c) a \<noteq> Some d"
    if "a |\<in>| onlineNodesSet ?c" "a |\<in>| nodesSet ?c" "d |\<in>| onlineNodesSet ?c" for a d
    using assms(2) that by (auto simp: noOnlineApprovedDelegator_def)
  have mem: "x = n \<and> n |\<in>| nodesSet ?c \<or> fmlookup (delegations ?c) x = Some n"
    if "x \<in> set (contribution ?c n)" for x n
  proof (cases "fmlookup (pools ?c) n")
    case None
    then show ?thesis using that by (auto simp: contribution_def split: if_splits)
  next
    case (Some l)
    then show ?thesis using that pool [OF Some] by (auto simp: contribution_def split: if_splits)
  qed
  show "distinct (onlineNodes st)" using assms(1) by (simp add: scanInv_def)
  show "distinct (contribution ?c n)" if "n \<in> set (onlineNodes st)" for n
  proof (cases "fmlookup (pools ?c) n")
    case None
    then show ?thesis by (simp add: contribution_def)
  next
    case (Some l)
    have "n \<notin> set l" if "n |\<in>| nodesSet ?c"
      using pool [OF Some] noself [OF online that online] \<open>n \<in> set (onlineNodes st)\<close> by blast
    then show ?thesis using pool [OF Some] by (simp add: contribution_def Some)
  qed
  show "set (contribution ?c n) \<inter> set (contribution ?c m) = {}"
    if "n \<in> set (onlineNodes st)" "m \<in> set (onlineNodes st)" "n \<noteq> m" for n m
  proof (rule ccontr)
    assume "set (contribution ?c n) \<inter> set (contribution ?c m) \<noteq> {}"
    then obtain x where xn: "x \<in> set (contribution ?c n)" and xm: "x \<in> set (contribution ?c m)"
      by auto
    from mem [OF xn] mem [OF xm] that(3) noself online [OF that(1)] online [OF that(2)]
    show False by (metis option.inject)
  qed
qed

text \<open>
  C1, as the code has it: a reload of an identity state whose scanned keys are not empty
  completes, and its validator list is descending in the byte order of the addresses
  (\<open>bytes.Compare\<close> of an element and a later one is never negative). When moreover the
  scanned addresses are pairwise different and no online approved address has an online
  delegatee, the list has no duplicates and is strictly descending. Nothing removes
  duplicates: an online approved address whose delegatee is online is appended by both
  rules.
\<close>

theorem loadValidNodes_validators_sorted:
  assumes "[] \<notin> set (scannedKeys (identities db))"
  shows "\<exists>v'. loadValidNodes FromBytes db v = Inr v' \<and>
           sorted_wrt (\<lambda>a b. bytes_Compare a b \<ge> 0) (sortedValidators v') \<and>
           (distinct (keyAddresses (identities db)) \<and> noOnlineApprovedDelegator v' \<longrightarrow>
              distinct (sortedValidators v') \<and>
              sorted_wrt (\<lambda>a b. bytes_Compare a b > 0) (sortedValidators v'))"
proof -
  let ?st0 = "\<lparr>cache = v\<lparr>nodesSet := {||}, onlineNodesSet := {||}, delegations := fmempty,
                            pools := fmempty\<rparr>, onlineNodes = [], delegators = []\<rparr>"
  obtain st where it: "IterateIdentities (identities db) (scanIdentity FromBytes) ?st0 = Inr st"
    using IterateIdentities_returns [OF assms] by blast
  let ?vals = "appendValidators (cache st) (onlineNodes st) []"
  let ?v' = "(cache st)\<lparr>sortedValidators := sortValidNodes ?vals, height := Version db\<rparr>"
  have res: "loadValidNodes FromBytes db v = Inr ?v'"
    using it by (simp add: loadValidNodes_def Let_def)
  have desc: "sorted_wrt (\<lambda>a b. bytes_Compare a b \<ge> 0) (sortedValidators ?v')"
    by (simp add: sortValidNodes_descending)
  have strict: "distinct (sortedValidators ?v') \<and>
                sorted_wrt (\<lambda>a b. bytes_Compare a b > 0) (sortedValidators ?v')"
    if d: "distinct (keyAddresses (identities db))" and n: "noOnlineApprovedDelegator ?v'"
  proof -
    have "scanInv ?st0" by (simp add: scanInv_def)
    with it have inv: "scanInv st"
      by (rule IterateIdentities_scanInv) (use d in simp_all)
    have "noOnlineApprovedDelegator (cache st)"
      using n by (simp add: noOnlineApprovedDelegator_def)
    with inv have "distinct ?vals"
      by (simp add: appendValidators_concat distinct_contributions)
    then show ?thesis using sortValidNodes_strict [of ?vals] by simp
  qed
  show ?thesis using res desc strict by blast
qed


theorem loadValidNodes_validators_sorted_witness:
  "[] \<notin> set (scannedKeys (identities sampleDB2)) \<and>
   distinct (keyAddresses (identities sampleDB2)) \<and>
   noOnlineApprovedDelegator sampleCache2 \<and>
   loadValidNodes sampleFromBytes sampleDB2 (NewValidatorsCache addrC) = Inr sampleCache2 \<and>
   sortedValidators sampleCache2 = [addrA, addrC, addrB] \<and>
   distinct (sortedValidators sampleCache2) \<and>
   sorted_wrt (\<lambda>a b. bytes_Compare a b > 0) (sortedValidators sampleCache2)"
proof -
  have k: "[] \<notin> set (scannedKeys (identities sampleDB2))"
    by (simp add: sampleDB2_def)
  have d: "distinct (keyAddresses (identities sampleDB2))"
    by (simp add: sampleDB2_def SetBytes_def addr_distinct)
  have n: "noOnlineApprovedDelegator sampleCache2"
    by (auto simp: noOnlineApprovedDelegator_def sampleCache2_def addr_distinct)
  have v: "sortedValidators sampleCache2 = [addrA, addrC, addrB]"
    by (simp add: sampleCache2_def)
  from loadValidNodes_validators_sorted [OF k, of sampleFromBytes "NewValidatorsCache addrC"] d n
  have "distinct (sortedValidators sampleCache2) \<and>
        sorted_wrt (\<lambda>a b. bytes_Compare a b > 0) (sortedValidators sampleCache2)"
    by (auto simp: load_sample2)
  then show ?thesis using k d n v load_sample2 by simp
qed

text \<open>
  C1 as stated fails: \<open>A\<close> is online, \<open>B\<close> is online and approved with delegatee \<open>A\<close>.
  \<open>B\<close> is appended as a delegator of the online \<open>A\<close> and as an approved online node,
  and the validator list holds it twice.
\<close>

theorem loadValidNodes_validators_sorted_counterexample:
  "[] \<notin> set (scannedKeys [(Some (1 # addrA), [2]), (Some (1 # addrB), 3 # addrA)]) \<and>
   distinct (keyAddresses [(Some (1 # addrA), [2]), (Some (1 # addrB), 3 # addrA)]) \<and>
   loadValidNodes sampleFromBytes
     \<lparr>identities = [(Some (1 # addrA), [2]), (Some (1 # addrB), 3 # addrA)], Version = 5\<rparr>
     (NewValidatorsCache addrC) =
   Inr \<lparr>sortedValidators = [addrB, addrB],
        pools = fmupd addrA [addrB] fmempty,
        delegations = fmupd addrB addrA fmempty,
        nodesSet = {|addrB|},
        onlineNodesSet = {|addrA, addrB|},
        god = addrC,
        height = 5\<rparr> \<and>
   \<not> distinct [addrB, addrB] \<and>
   \<not> sorted_wrt (\<lambda>a b. bytes_Compare a b > 0) [addrB, addrB]"
  by (simp add: loadValidNodes_def NewValidatorsCache_def scanIdentity_def
      sampleFromBytes_def SetBytes_def add_to_empty addr_distinct
      sortValidNodes_def SliceStable_def Let_def addr_compare2 finsert_commute)

end
